theory Spec2Isabelle
  imports Main "HOL-Library.Word" "HOL-Library.List_Lexorder"
begin

unbundle bit_operations_syntax

section \<open>Bytes and byte strings\<close>

text \<open>
  \<^verbatim>\<open>uint8_t\<close> is an 8-bit word; a \<^verbatim>\<open>std::string\<close> (partition key, column name,
  column value) and the contents of a file are lists of bytes. The order on byte
  strings is the lexicographic order on unsigned bytes, a proper prefix being smaller:
  the order of \<^verbatim>\<open>std::string::operator<\<close> and of the keys of a \<^verbatim>\<open>std::map\<close>.
\<close>

type_synonym byte = "8 word"
type_synonym bytes = "byte list"

section \<open>Buffer.cpp: the byte-buffer readers\<close>

text \<open>
  The two buffer classes share the typed decoders of the base class \<^verbatim>\<open>Buffer\<close> and differ
  in the virtual \<^verbatim>\<open>read_bytes\<close>, \<^verbatim>\<open>skip_bytes\<close> and \<^verbatim>\<open>seek\<close>.

  \<^item> \<^verbatim>\<open>UncompressedBuffer\<close>: \<open>content\<close> is the file, \<open>offset\<close> the position of the
    \<^verbatim>\<open>FILE *\<close>.
  \<^item> \<^verbatim>\<open>CompressedBuffer\<close>: \<open>content\<close> is the logical uncompressed stream (its length is
    \<^verbatim>\<open>uncompressed_len\<close>), \<open>offset\<close> is \<^verbatim>\<open>file_offset\<close>. Chunk decompression and the
    checksums are calls into external libraries and are not modelled; \<open>buffer_null\<close>
    records whether the scratch buffer is still the null pointer (nothing was ever
    loaded).
\<close>

datatype buffer_class = UncompressedBuffer | CompressedBuffer

record Buffer =
  buffer_class :: buffer_class
  content :: bytes
  offset :: nat
  iseof :: bool
  buffer_null :: bool

definition new_buffer :: "buffer_class \<Rightarrow> bytes \<Rightarrow> Buffer" where
  "new_buffer c bs =
     \<lparr>buffer_class = c, content = bs, offset = 0, iseof = False, buffer_null = True\<rparr>"

text \<open>
  \<^verbatim>\<open>read_bytes(n)\<close> returns the borrowed slice, or the null pointer (\<open>None\<close>).

  \<^verbatim>\<open>UncompressedBuffer::read_bytes\<close> is \<^verbatim>\<open>if (fread(buffer, n_bytes, 1, fp) == 0) { iseof = true;
  return NULL; }\<close>. \<^verbatim>\<open>fread\<close> returns the number of complete items read: 0 when fewer than
  \<^verbatim>\<open>n_bytes\<close> bytes are left (the position then moves to the end of the file), and also 0
  when \<^verbatim>\<open>n_bytes\<close> is 0 (C11 7.21.8.1: if size or nmemb is zero, fread returns zero and the
  state of the stream is unchanged).

  \<^verbatim>\<open>CompressedBuffer::read_bytes\<close> fails when \<^verbatim>\<open>file_offset + n_bytes > uncompressed_len\<close>;
  otherwise it returns \<^verbatim>\<open>buffer + file_offset - buffer_offset\<close>, which is null only while
  \<^verbatim>\<open>buffer\<close> is null, that is when an empty read comes before every load.
\<close>

definition read_bytes :: "nat \<Rightarrow> Buffer \<Rightarrow> bytes option \<times> Buffer" where
  "read_bytes n b =
     (case buffer_class b of
        UncompressedBuffer \<Rightarrow>
          if n = 0 then (None, b\<lparr>iseof := True\<rparr>)
          else if length (content b) < offset b + n
            then (None, b\<lparr>iseof := True, offset := max (offset b) (length (content b))\<rparr>)
          else (Some (take n (drop (offset b) (content b))), b\<lparr>offset := offset b + n\<rparr>)
      | CompressedBuffer \<Rightarrow>
          if length (content b) < offset b + n then (None, b\<lparr>iseof := True\<rparr>)
          else if n = 0 then ((if buffer_null b then None else Some []), b)
          else (Some (take n (drop (offset b) (content b))),
                b\<lparr>offset := offset b + n, buffer_null := False\<rparr>))"

text \<open>
  \<^verbatim>\<open>skip_bytes\<close> takes a \<^verbatim>\<open>size_t\<close>. The uncompressed buffer hands it to \<^verbatim>\<open>fseek(fp, n,
  SEEK_CUR)\<close>, whose offset is a signed \<^verbatim>\<open>long\<close>: a seek to a negative position fails and
  leaves the position where it was. The compressed buffer adds it to the signed 64-bit
  \<^verbatim>\<open>file_offset\<close>.
\<close>

definition skip_bytes :: "64 word \<Rightarrow> Buffer \<Rightarrow> Buffer" where
  "skip_bytes n b =
     (let target = int (offset b) + sint n
      in if target < 0 then b else b\<lparr>offset := nat target\<rparr>)"

text \<open>
  \<^verbatim>\<open>seek\<close> takes an \<^verbatim>\<open>int64_t\<close>. \<^verbatim>\<open>UncompressedBuffer::seek\<close> is \<^verbatim>\<open>iseof = fseeko(fp, pos,
  SEEK_SET) != 0\<close>, and \<^verbatim>\<open>fseeko\<close> fails on a negative position.
  \<^verbatim>\<open>CompressedBuffer::seek\<close> assigns \<^verbatim>\<open>file_offset\<close>; with a negative position, which no
  well-formed file gives, the next read would index the chunk table out of range: such a
  position counts as one past the end of the stream here.
\<close>

definition seek :: "64 word \<Rightarrow> Buffer \<Rightarrow> Buffer" where
  "seek pos b =
     (case buffer_class b of
        UncompressedBuffer \<Rightarrow>
          if pos <s 0 then b\<lparr>iseof := True\<rparr> else b\<lparr>offset := unat pos, iseof := False\<rparr>
      | CompressedBuffer \<Rightarrow> b\<lparr>offset := unat pos\<rparr>)"

text \<open>Big-endian value of a byte slice (\<^verbatim>\<open>be16toh\<close>, \<^verbatim>\<open>be32toh\<close>, \<^verbatim>\<open>be64toh\<close> of the raw bytes).\<close>

definition be_value :: "bytes \<Rightarrow> 'a::len word" where
  "be_value bs = foldl (\<lambda>r d. push_bit 8 r OR ucast d) 0 bs"

text \<open>\<^verbatim>\<open>read_from_buffer<T>\<close> gives 0 when \<^verbatim>\<open>read_bytes\<close> returns null.\<close>

definition read_short :: "Buffer \<Rightarrow> 16 word \<times> Buffer" where
  "read_short b = (case read_bytes 2 b of (None, b') \<Rightarrow> (0, b') | (Some d, b') \<Rightarrow> (be_value d, b'))"

definition read_int :: "Buffer \<Rightarrow> 32 word \<times> Buffer" where
  "read_int b = (case read_bytes 4 b of (None, b') \<Rightarrow> (0, b') | (Some d, b') \<Rightarrow> (be_value d, b'))"

definition read_longlong :: "Buffer \<Rightarrow> 64 word \<times> Buffer" where
  "read_longlong b = (case read_bytes 8 b of (None, b') \<Rightarrow> (0, b') | (Some d, b') \<Rightarrow> (be_value d, b'))"

text \<open>
  \<^verbatim>\<open>read_byte\<close> is \<^verbatim>\<open>return *read_bytes(1)\<close>: at the end of the stream it dereferences the
  null pointer, which is \<open>None\<close> here.
\<close>

definition read_byte :: "Buffer \<Rightarrow> (byte \<times> Buffer) option" where
  "read_byte b = (case read_bytes 1 b of (None, b') \<Rightarrow> None | (Some d, b') \<Rightarrow> Some (hd d, b'))"

text \<open>
  \<^verbatim>\<open>read_string\<close>: a signed 16-bit length, then that many bytes. The length is converted
  to \<^verbatim>\<open>size_t\<close>, so a negative one asks for more bytes than any file has.
\<close>

definition size_t_of_sint :: "'a::len word \<Rightarrow> nat" where
  "size_t_of_sint w = nat (sint w mod 2 ^ 64)"

definition read_string :: "Buffer \<Rightarrow> bytes \<times> Buffer" where
  "read_string b =
     (let (len, b1) = read_short b
      in if iseof b1 then ([], b1)
         else (case read_bytes (size_t_of_sint len) b1 of
                 (None, b2) \<Rightarrow> ([], b2)
               | (Some d, b2) \<Rightarrow> (d, b2)))"

text \<open>\<^verbatim>\<open>read_data\<close>: a signed 32-bit length, then the blob; false at the end of the stream.\<close>

definition read_data :: "Buffer \<Rightarrow> bytes option \<times> Buffer" where
  "read_data b =
     (let (len, b1) = read_int b
      in if iseof b1 then (None, b1)
         else read_bytes (size_t_of_sint len) b1)"

definition skip_data :: "Buffer \<Rightarrow> Buffer" where
  "skip_data b = (let (len, b1) = read_int b in skip_bytes (scast len) b1)"

subsection \<open>Variable-length integers\<close>

text \<open>
  The loop \<^verbatim>\<open>for (; extraBytes < 8 && (*firstByte & (0x80 >> extraBytes)) != 0; extraBytes++)\<close>
  of \<^verbatim>\<open>read_unsigned_vint\<close>.
\<close>

function count_extra_bytes :: "byte \<Rightarrow> nat \<Rightarrow> nat" where
  "count_extra_bytes firstByte extraBytes =
     (if extraBytes < 8 \<and> firstByte AND drop_bit extraBytes 0x80 \<noteq> 0
      then count_extra_bytes firstByte (Suc extraBytes) else extraBytes)"
  by pat_completeness auto
termination
  by (relation "measure (\<lambda>(f, e). 8 - e)") auto

declare count_extra_bytes.simps [simp del]

definition read_unsigned_vint :: "Buffer \<Rightarrow> 64 word \<times> Buffer" where
  "read_unsigned_vint b =
     (case read_bytes 1 b of
        (None, b1) \<Rightarrow> (0, b1)
      | (Some fb, b1) \<Rightarrow>
          (let firstByte = hd fb
           in if firstByte < 0x7f then (ucast firstByte, b1)
              else
                (let extraBytes = count_extra_bytes firstByte 0;
                     retval = ucast (firstByte AND drop_bit extraBytes 0xff)
                 in case read_bytes extraBytes b1 of
                      (None, b2) \<Rightarrow> (0, b2)
                    | (Some data, b2) \<Rightarrow>
                        (foldl (\<lambda>r d. push_bit 8 r OR ucast d) retval data, b2))))"

text \<open>
  \<^verbatim>\<open>read_vint\<close>: \<^verbatim>\<open>int64_t n = read_unsigned_vint(); return (n << 1) ^ (n >> 63);\<close> with the
  arithmetic right shift of a signed value.
\<close>

definition read_vint :: "Buffer \<Rightarrow> 64 word \<times> Buffer" where
  "read_vint b =
     (let (n, b1) = read_unsigned_vint b
      in (push_bit 1 n XOR signed_drop_bit 63 n, b1))"

subsection \<open>The encoding side, as the specification words it\<close>

text \<open>
  The repository only decodes. The writer's format is taken from the specification:
  the leading 1-bits of the first byte give the number of extra big-endian bytes, the
  remaining low bits of the first byte carry the high part of the value. A value below
  \<open>2 ^ (7 * (n + 1))\<close> fits with \<open>n\<close> extra bytes; nine bytes hold every 64-bit value.
\<close>

definition spec_extra_bytes :: "64 word \<Rightarrow> nat" where
  "spec_extra_bytes v =
     (if v < 2 ^ 7 then 0 else if v < 2 ^ 14 then 1 else if v < 2 ^ 21 then 2
      else if v < 2 ^ 28 then 3 else if v < 2 ^ 35 then 4
      else if v < 2 ^ 42 then 5 else if v < 2 ^ 49 then 6
      else if v < 2 ^ 56 then 7 else 8)"

definition spec_low_bytes :: "nat \<Rightarrow> 64 word \<Rightarrow> bytes" where
  "spec_low_bytes n v =
     map (\<lambda>i. ucast (drop_bit (8 * i) v)) (filter (\<lambda>i. i < n) [7, 6, 5, 4, 3, 2, 1, 0])"

definition spec_encode_unsigned_vint :: "64 word \<Rightarrow> bytes" where
  "spec_encode_unsigned_vint v =
     (let n = spec_extra_bytes v
      in (ucast (drop_bit (8 * n) v) OR NOT (drop_bit n 0xff)) # spec_low_bytes n v)"

text \<open>The zigzag transform of a signed 64-bit value, as the specification words it.\<close>

definition spec_zigzag :: "64 word \<Rightarrow> 64 word" where
  "spec_zigzag v = push_bit 1 v XOR signed_drop_bit 63 v"

section \<open>Partitioners.cpp: tokens and the global ordering\<close>

text \<open>
  \<^verbatim>\<open>Partitioner\<close> is an abstract class with two virtual methods; a partitioner is the
  record of the two. A \<^verbatim>\<open>Token\<close> is \<^verbatim>\<open>uint8_t[16]\<close>. \<^verbatim>\<open>assign_token\<close> writes into a
  token that the caller owns, so it takes the old token and returns the new one.
  Of the results of \<^verbatim>\<open>memcmp\<close> and \<^verbatim>\<open>compare\<close> only the sign is specified: they are -1, 0
  or 1 here.
\<close>

type_synonym Token = bytes

record Partitioner =
  assign_token :: "Token \<Rightarrow> bytes \<Rightarrow> Token"
  compare_token :: "Token \<Rightarrow> bytes \<Rightarrow> Token \<Rightarrow> bytes \<Rightarrow> int"

fun memcmp :: "bytes \<Rightarrow> bytes \<Rightarrow> nat \<Rightarrow> int" where
  "memcmp (x # xs) (y # ys) n =
     (if n = 0 then 0 else if x < y then - 1 else if y < x then 1 else memcmp xs ys (n - 1))"
| "memcmp xs ys n = 0"

text \<open>
  The tail shared by three of the four \<^verbatim>\<open>compare_token\<close> methods: \<^verbatim>\<open>memcmp\<close> over the common
  length, then \<^verbatim>\<open>int(keyA.size()) - int(keyB.size())\<close>.
\<close>

definition compare_keys :: "bytes \<Rightarrow> bytes \<Rightarrow> int" where
  "compare_keys keyA keyB =
     (let content_cmp = memcmp keyA keyB (min (length keyA) (length keyB))
      in if content_cmp \<noteq> 0 then content_cmp else int (length keyA) - int (length keyB))"

text \<open>Little-endian value of a byte slice: reading an integer through a pointer cast.\<close>

definition le_value :: "bytes \<Rightarrow> 'a::len word" where
  "le_value bs = foldr (\<lambda>d r. push_bit 8 r OR ucast d) bs 0"

definition le_bytes :: "nat \<Rightarrow> 64 word \<Rightarrow> bytes" where
  "le_bytes n v =
     map (\<lambda>i. ucast (drop_bit (8 * i) v)) (filter (\<lambda>i. i < n) [0, 1, 2, 3, 4, 5, 6, 7])"

subsection \<open>\<^verbatim>\<open>Murmer3Partitioner\<close>\<close>

definition fmix :: "64 word \<Rightarrow> 64 word" where
  "fmix k0 =
     (let k1 = k0 XOR drop_bit 33 k0;
          k2 = k1 * 0xff51afd7ed558ccd;
          k3 = k2 XOR drop_bit 33 k2;
          k4 = k3 * 0xc4ceb9fe1a85ec53
      in k4 XOR drop_bit 33 k4)"

definition rotl64 :: "64 word \<Rightarrow> nat \<Rightarrow> 64 word" where
  "rotl64 v n = push_bit n v OR drop_bit (64 - n) v"

definition getblock :: "bytes \<Rightarrow> nat \<Rightarrow> nat \<Rightarrow> 64 word" where
  "getblock key offs index =
     (let blockOffset = offs + 8 * index
      in foldl (\<lambda>r i. r + push_bit (8 * i) (ucast (key ! (blockOffset + i)))) 0
           [0, 1, 2, 3, 4, 5, 6, 7])"

definition murmur_c1 :: "64 word" where "murmur_c1 = 0x87c37b91114253d5"
definition murmur_c2 :: "64 word" where "murmur_c2 = 0x4cf5ad432745937f"

text \<open>
  One turn of the body loop, for block \<open>i\<close>, and the loop itself (\<open>n\<close> turns still to
  run).
\<close>

definition murmur_block :: "bytes \<Rightarrow> nat \<Rightarrow> 64 word \<times> 64 word \<Rightarrow> 64 word \<times> 64 word" where
  "murmur_block key i h =
     (let k1 = rotl64 (getblock key 0 (i * 2) * murmur_c1) 31 * murmur_c2;
          h1 = (rotl64 (fst h XOR k1) 27 + snd h) * 5 + 0x52dce729;
          k2 = rotl64 (getblock key 0 (i * 2 + 1) * murmur_c2) 33 * murmur_c1;
          h2 = (rotl64 (snd h XOR k2) 31 + h1) * 5 + 0x38495ab5
      in (h1, h2))"

primrec murmur_body :: "bytes \<Rightarrow> nat \<Rightarrow> nat \<Rightarrow> 64 word \<times> 64 word \<Rightarrow> 64 word \<times> 64 word" where
  "murmur_body key i 0 h = h"
| "murmur_body key i (Suc n) h = murmur_body key (Suc i) n (murmur_block key i h)"

text \<open>
  The \<^verbatim>\<open>switch (length & 15)\<close> falls through from the highest case down. The tail bytes
  are \<^verbatim>\<open>char\<close> converted to \<^verbatim>\<open>int64_t\<close> without a mask: they are sign-extended.
\<close>

definition murmur_tail :: "bytes \<Rightarrow> nat \<Rightarrow> nat \<Rightarrow> nat list \<Rightarrow> 64 word" where
  "murmur_tail key offs cnt idxs =
     foldl (\<lambda>k i. k XOR push_bit (8 * i) (scast (key ! (offs + i)))) 0
       (filter (\<lambda>i. i < cnt) idxs)"

definition murmur3_h1 :: "bytes \<Rightarrow> 64 word" where
  "murmur3_h1 key =
     (let len = length key;
          nblocks = len div 16;
          h = murmur_body key 0 nblocks (0, 0);
          offs = nblocks * 16;
          rem = len mod 16;
          h2a = (if 9 \<le> rem
                 then snd h XOR rotl64 (murmur_tail key (offs + 8) (rem - 8) [6, 5, 4, 3, 2, 1, 0]
                                          * murmur_c2) 33 * murmur_c1
                 else snd h);
          h1a = (if 1 \<le> rem
                 then fst h XOR rotl64 (murmur_tail key offs rem [7, 6, 5, 4, 3, 2, 1, 0]
                                          * murmur_c1) 31 * murmur_c2
                 else fst h);
          h1b = h1a XOR of_nat len;
          h2b = h2a XOR of_nat len;
          h1c = h1b + h2b;
          h2c = h2b + h1c;
          h1d = fmix h1c;
          h2d = fmix h2c;
          h1e = h1d + h2d
      in if h1e = 0x8000000000000000 then 0x7fffffffffffffff else h1e)"

definition murmur3_assign_token :: "Token \<Rightarrow> bytes \<Rightarrow> Token" where
  "murmur3_assign_token token key = le_bytes 8 (murmur3_h1 key) @ drop 8 token"

definition murmur3_compare_token :: "Token \<Rightarrow> bytes \<Rightarrow> Token \<Rightarrow> bytes \<Rightarrow> int" where
  "murmur3_compare_token tokenA keyA tokenB keyB =
     (let resultA = le_value (take 8 tokenA) :: 64 word;
          resultB = le_value (take 8 tokenB) :: 64 word
      in if resultA <s resultB then - 1
         else if resultB <s resultA then 1
         else compare_keys keyA keyB)"

definition Murmer3Partitioner :: Partitioner where
  "Murmer3Partitioner =
     \<lparr>assign_token = murmur3_assign_token, compare_token = murmur3_compare_token\<rparr>"

subsection \<open>The other partitioners\<close>

definition ByteOrderPartitioner :: Partitioner where
  "ByteOrderPartitioner =
     \<lparr>assign_token = (\<lambda>token key. token),
      compare_token = (\<lambda>tokenA keyA tokenB keyB. compare_keys keyA keyB)\<rparr>"

text \<open>\<^verbatim>\<open>keyA.compare(keyB)\<close> compares the common prefix, then the lengths.\<close>

definition OrderPreservingPartitioner :: Partitioner where
  "OrderPreservingPartitioner =
     \<lparr>assign_token = (\<lambda>token key. token),
      compare_token = (\<lambda>tokenA keyA tokenB keyB. compare_keys keyA keyB)\<rparr>"

text \<open>
  \<^verbatim>\<open>RandomPartitioner\<close> hashes the key with MD5 from OpenSSL, which is taken as the
  parameter \<open>md5\<close>. A digest with the top bit set is negated as a 16-byte
  two's-complement number, from the last byte backwards.
\<close>

fun negate_from_last :: "bytes \<Rightarrow> bytes" where
  "negate_from_last [] = []"
| "negate_from_last (c # cs) =
     (if c = 0 then 0 # negate_from_last cs else (0xFF - c + 1) # map (\<lambda>x. 0xFF - x) cs)"

definition random_assign_token :: "(bytes \<Rightarrow> bytes) \<Rightarrow> Token \<Rightarrow> bytes \<Rightarrow> Token" where
  "random_assign_token md5 token key =
     (let checksum = md5 key
      in if hd checksum < 0x80 then checksum else rev (negate_from_last (rev checksum)))"

definition random_compare_token :: "Token \<Rightarrow> bytes \<Rightarrow> Token \<Rightarrow> bytes \<Rightarrow> int" where
  "random_compare_token tokenA keyA tokenB keyB =
     (let result = memcmp tokenA tokenB 16
      in if result \<noteq> 0 then result else compare_keys keyA keyB)"

definition RandomPartitioner :: "(bytes \<Rightarrow> bytes) \<Rightarrow> Partitioner" where
  "RandomPartitioner md5 =
     \<lparr>assign_token = random_assign_token md5, compare_token = random_compare_token\<rparr>"

section \<open>SSTable.cpp: the reader of the format before MA\<close>

text \<open>
  A version is the two letters of the file name as a number,
  \<^verbatim>\<open>(a - 'a') * 26 + (b - 'a')\<close>.
\<close>

definition VERSION_MA :: int where "VERSION_MA = 12 * 26"
definition VERSION_KA :: int where "VERSION_KA = 10 * 26"
definition VERSION_JA :: int where "VERSION_JA = 9 * 26"
definition VERSION_D :: int where "VERSION_D = 3 * 26"

text \<open>
  A \<^verbatim>\<open>TableConfig\<close> names a file set by its path prefix. The files are immutable
  while the program runs, so the configuration carries what is found under the prefix:
  the logical (uncompressed) stream of \<^verbatim>\<open>-Data.db\<close>, and \<^verbatim>\<open>-Index.db\<close> and
  \<^verbatim>\<open>-Summary.db\<close>; \<open>None\<close> is a file that cannot be opened. The schema is used by the
  MA format only.
\<close>

record TableConfig =
  version :: int
  data_file :: "bytes option"
  index_file :: "bytes option"
  summary_file :: "bytes option"

text \<open>
  \<^verbatim>\<open>ColumnInfo\<close>. The union \<^verbatim>\<open>extra_data\<close> overlays the 64-bit \<^verbatim>\<open>counter_timestamp\<close> and
  the two 32-bit fields \<^verbatim>\<open>ttl\<close> and \<^verbatim>\<open>expiration\<close>; it is kept as the two halves, \<^verbatim>\<open>ttl\<close>
  being the low one on the little-endian hosts the program is built for.
\<close>

record ColumnInfo =
  deleted :: bool
  expiring :: bool
  range_tombstone :: bool
  name :: bytes
  ts :: "64 word"
  ttl :: "32 word"
  expiration :: "32 word"
  data :: bytes

definition new_ColumnInfo :: ColumnInfo where
  "new_ColumnInfo =
     \<lparr>deleted = False, expiring = False, range_tombstone = False, name = [], ts = 0,
      ttl = 0, expiration = 0, data = []\<rparr>"

definition clear_flags :: "ColumnInfo \<Rightarrow> ColumnInfo" where
  "clear_flags c = c\<lparr>deleted := False, expiring := False, range_tombstone := False\<rparr>"

definition set_counter_timestamp :: "64 word \<Rightarrow> ColumnInfo \<Rightarrow> ColumnInfo" where
  "set_counter_timestamp v c = c\<lparr>ttl := ucast v, expiration := ucast (drop_bit 32 v)\<rparr>"

datatype FSM = READ_ROW | READ_COLUMN | READ_COLUMN_DATA

text \<open>
  What stops the program instead of returning: a failed \<^verbatim>\<open>assert\<close> (the assertions are
  compiled in unless \<^verbatim>\<open>NDEBUG\<close> is defined), the dereference of a null pointer, and a
  read outside an array.
\<close>

datatype error = AssertionFailed | NullDereference | OutOfBounds

text \<open>
  The fields of \<^verbatim>\<open>SStable\<close> and of \<^verbatim>\<open>OldSStable\<close>, but for the shared pointer
  \<^verbatim>\<open>data_buffer\<close>, which is kept beside them (see \<open>Reader\<close> below): the three virtual
  methods never read or assign the pointer itself, they work on the buffer it points to
  and on the other fields.
\<close>

record OldSStable =
  next_key_value :: bytes
  next_token_value :: Token
  row_marked_for_deletion :: "64 word"
  start_offset :: "64 word"
  next_column_info :: ColumnInfo
  fsm :: FSM
  config :: TableConfig
  remaining_columns :: "64 word"

text \<open>
  The constructor leaves \<^verbatim>\<open>next_token_value\<close> uninitialised: the token is whatever the
  memory held.
\<close>

definition new_OldSStable :: "TableConfig \<Rightarrow> Token \<Rightarrow> OldSStable" where
  "new_OldSStable c uninitialised_token =
     \<lparr>next_key_value = [], next_token_value = uninitialised_token,
      row_marked_for_deletion = 0, start_offset = 0, next_column_info = new_ColumnInfo,
      fsm = READ_ROW, config = c, remaining_columns = 0\<rparr>"

definition DELETION_MASK :: byte where "DELETION_MASK = 0x01"
definition EXPIRATION_MASK :: byte where "EXPIRATION_MASK = 0x02"
definition COUNTER_MASK :: byte where "COUNTER_MASK = 0x04"
definition RANGE_TOMBSTONE_MASK :: byte where "RANGE_TOMBSTONE_MASK = 0x10"

text \<open>
  The loop of \<^verbatim>\<open>read_column\<close> that reduces a composite name to its last element;
  \<open>buffer_len\<close> is the loop variable.
\<close>

function strip_path :: "bytes \<Rightarrow> nat \<Rightarrow> bytes" where
  "strip_path nm buffer_len =
     (if 2 \<le> buffer_len
      then
        (let advanced = length nm - buffer_len;
             len = unat (nm ! advanced) * 256 + unat (nm ! (advanced + 1))
         in if len + 3 < buffer_len then strip_path nm (buffer_len - (len + 3))
            else if buffer_len = len + 3 then take len (drop (advanced + 2) nm)
            else nm)
      else nm)"
  by pat_completeness auto
termination
  by (relation "measure (\<lambda>(nm, buffer_len). buffer_len)") auto

declare strip_path.simps [simp del]

text \<open>
  The three virtual methods, on the reader and the buffer that \<^verbatim>\<open>data_buffer\<close> points to.
  Each returns its C++ result with the new reader and the new buffer.
\<close>

definition OldSStable_read_column ::
  "OldSStable \<Rightarrow> Buffer \<Rightarrow> error + (bool \<times> OldSStable \<times> Buffer)" where
  "OldSStable_read_column t b =
     (let (t1, b1) = (if fsm t = READ_COLUMN_DATA then (t\<lparr>fsm := READ_COLUMN\<rparr>, skip_data b)
                      else (t, b))
      in if fsm t1 \<noteq> READ_COLUMN then Inl AssertionFailed
         else
           (let t2 = t1\<lparr>next_column_info := clear_flags (next_column_info t1)\<rparr>
            in if version (config t2) < VERSION_JA \<and> remaining_columns t2 = 0
               then Inr (False, t2\<lparr>next_column_info := (next_column_info t2)\<lparr>name := []\<rparr>\<rparr>, b1)
               else
                 (let t3 = (if version (config t2) < VERSION_JA
                            then t2\<lparr>remaining_columns := remaining_columns t2 - 1\<rparr> else t2);
                      (nm, b2) = read_string b1
                  in if nm = []
                     then Inr (False,
                               t3\<lparr>next_column_info := (next_column_info t3)\<lparr>name := []\<rparr>,
                                  fsm := READ_ROW\<rparr>, b2)
                     else
                       (case read_byte b2 of
                          None \<Rightarrow> Inl NullDereference
                        | Some (flags, b3) \<Rightarrow>
                            (let c4 = (next_column_info t3)
                                        \<lparr>name := strip_path nm (length nm),
                                         deleted := (flags AND DELETION_MASK \<noteq> 0)\<rparr>
                             in if flags AND RANGE_TOMBSTONE_MASK \<noteq> 0
                                then
                                  (let (range_end, b4) = read_string b3;
                                       (tsv, b5) = read_longlong (skip_bytes 4 b4)
                                   in Inr (True,
                                           t3\<lparr>next_column_info :=
                                                c4\<lparr>data := range_end, ts := tsv,
                                                   range_tombstone := True\<rparr>\<rparr>, b5))
                                else
                                  (let (c5, b4) =
                                         (if flags AND COUNTER_MASK \<noteq> 0
                                          then (let (v, b') = read_longlong b3
                                                in (set_counter_timestamp v c4, b'))
                                          else if flags AND EXPIRATION_MASK \<noteq> 0
                                          then (let (v, b') = read_int b3;
                                                    (w, b'') = read_int b'
                                                in (c4\<lparr>ttl := v, expiration := w,
                                                       expiring := True\<rparr>, b''))
                                          else (c4, b3));
                                       (tsv, b5) = read_longlong b4
                                   in Inr (True,
                                           t3\<lparr>next_column_info := c5\<lparr>ts := tsv\<rparr>,
                                              fsm := READ_COLUMN_DATA\<rparr>, b5)))))))"

definition OldSStable_read_row ::
  "Partitioner option \<Rightarrow> OldSStable \<Rightarrow> Buffer \<Rightarrow> error + (bool \<times> OldSStable \<times> Buffer)" where
  "OldSStable_read_row pPartitioner t b =
     (if fsm t \<noteq> READ_ROW then Inl AssertionFailed
      else
        (let (key, b1) = read_string b;
             t1 = t\<lparr>next_key_value := key\<rparr>
         in if iseof b1 then Inr (True, t1, b1)
            else
              (let t2 = (case pPartitioner of
                           None \<Rightarrow> t1
                         | Some p \<Rightarrow>
                             t1\<lparr>next_token_value := assign_token p (next_token_value t1) key\<rparr>);
                   b2 = (if version (config t) < VERSION_D then skip_bytes 4 b1
                         else if version (config t) < VERSION_JA then skip_bytes 8 b1
                         else b1);
                   (rmd, b3) = read_longlong (skip_bytes 4 b2);
                   t3 = t2\<lparr>row_marked_for_deletion := rmd\<rparr>;
                   (t4, b4) = (if version (config t) < VERSION_JA
                               then (let (n, b') = read_int b3
                                     in (t3\<lparr>remaining_columns := scast n\<rparr>, b'))
                               else (t3, b3))
               in case OldSStable_read_column (t4\<lparr>fsm := READ_COLUMN\<rparr>) b4 of
                    Inl e \<Rightarrow> Inl e
                  | Inr (r, t5, b5) \<Rightarrow> Inr (iseof b5, t5, b5))))"

text \<open>
  \<^verbatim>\<open>read_column_data\<close> returns the result of \<^verbatim>\<open>read_data\<close>; the string it was given is
  assigned only when that is true.
\<close>

definition OldSStable_read_column_data ::
  "OldSStable \<Rightarrow> Buffer \<Rightarrow> error + (bytes option \<times> OldSStable \<times> Buffer)" where
  "OldSStable_read_column_data t b =
     (if fsm t \<noteq> READ_COLUMN_DATA then Inl AssertionFailed
      else (let (d, b1) = read_data b in Inr (d, t\<lparr>fsm := READ_COLUMN\<rparr>, b1)))"

subsection \<open>Readers and their shared buffers\<close>

text \<open>
  A reader object is the shared pointer \<^verbatim>\<open>data_buffer\<close> (a
  \<^verbatim>\<open>std::shared_ptr<Buffer>\<close>: the address of a buffer in the store, or null) with the
  other fields. The store holds the buffers that \<^verbatim>\<open>std::make_shared\<close> has created, by
  address. \<^verbatim>\<open>open\<close> creates a new one; \<^verbatim>\<open>close\<close> drops the reader's reference;
  \<^verbatim>\<open>duplicate\<close> is \<^verbatim>\<open>new OldSStable(*this)\<close> with the implicit copy constructor, which
  copies every field, the shared pointer among them (the buffer classes themselves have
  their copy constructors deleted).
\<close>

record Reader =
  data_buffer :: "nat option"
  members :: OldSStable

type_synonym store = "Buffer list"

definition SStable_open :: "Reader \<Rightarrow> store \<Rightarrow> bool \<times> Reader \<times> store" where
  "SStable_open r s =
     (let t = members r;
          b = seek (start_offset t)
                (new_buffer CompressedBuffer
                   (case data_file (config t) of None \<Rightarrow> [] | Some d \<Rightarrow> d))
      in (data_file (config t) \<noteq> None,
          \<lparr>data_buffer = Some (length s), members = t\<lparr>fsm := READ_ROW\<rparr>\<rparr>, s @ [b]))"

definition SStable_close :: "Reader \<Rightarrow> Reader" where
  "SStable_close r = r\<lparr>data_buffer := None\<rparr>"

definition duplicate :: "Reader \<Rightarrow> Reader" where
  "duplicate r = \<lparr>data_buffer = data_buffer r, members = members r\<rparr>"

text \<open>A method of the reader, run on the buffer that the reader points to.\<close>

definition on_data_buffer ::
  "(OldSStable \<Rightarrow> Buffer \<Rightarrow> error + ('r \<times> OldSStable \<times> Buffer)) \<Rightarrow>
   Reader \<Rightarrow> store \<Rightarrow> error + ('r \<times> Reader \<times> store)" where
  "on_data_buffer method r s =
     (case data_buffer r of
        None \<Rightarrow> Inl NullDereference
      | Some a \<Rightarrow>
          if length s \<le> a then Inl NullDereference
          else (case method (members r) (s ! a) of
                  Inl e \<Rightarrow> Inl e
                | Inr (v, t', b') \<Rightarrow> Inr (v, r\<lparr>members := t'\<rparr>, s[a := b'])))"

text \<open>
  What a caller can do with a reader, what it then observes, and a sequence of such
  calls. \<^verbatim>\<open>open\<close> and \<^verbatim>\<open>close\<close> belong to the base class.
\<close>

datatype reader_call = Call_open | Call_close | Call_read_row | Call_read_column | Call_read_column_data

datatype observation = Returned_bool bool | Returned_data "bytes option" | Returned_nothing

definition call_reader ::
  "Partitioner option \<Rightarrow> reader_call \<Rightarrow> Reader \<Rightarrow> store \<Rightarrow>
   error + (observation \<times> Reader \<times> store)" where
  "call_reader p c r s =
     (case c of
        Call_open \<Rightarrow> (case SStable_open r s of (g, r', s') \<Rightarrow> Inr (Returned_bool g, r', s'))
      | Call_close \<Rightarrow> Inr (Returned_nothing, SStable_close r, s)
      | Call_read_row \<Rightarrow>
          (case on_data_buffer (OldSStable_read_row p) r s of
             Inl e \<Rightarrow> Inl e | Inr (v, r', s') \<Rightarrow> Inr (Returned_bool v, r', s'))
      | Call_read_column \<Rightarrow>
          (case on_data_buffer OldSStable_read_column r s of
             Inl e \<Rightarrow> Inl e | Inr (v, r', s') \<Rightarrow> Inr (Returned_bool v, r', s'))
      | Call_read_column_data \<Rightarrow>
          (case on_data_buffer OldSStable_read_column_data r s of
             Inl e \<Rightarrow> Inl e | Inr (v, r', s') \<Rightarrow> Inr (Returned_data v, r', s')))"

fun call_sequence ::
  "Partitioner option \<Rightarrow> reader_call list \<Rightarrow> Reader \<Rightarrow> store \<Rightarrow>
   error + (observation list \<times> Reader \<times> store)" where
  "call_sequence p [] r s = Inr ([], r, s)"
| "call_sequence p (c # cs) r s =
     (case call_reader p c r s of
        Inl e \<Rightarrow> Inl e
      | Inr (ob, r1, s1) \<Rightarrow>
          (case call_sequence p cs r1 s1 of
             Inl e \<Rightarrow> Inl e
           | Inr (obs, r2, s2) \<Rightarrow> Inr (ob # obs, r2, s2)))"

text \<open>
  The state of a reader as its owner sees it: its fields, and the buffer that
  \<^verbatim>\<open>data_buffer\<close> points to, decode position included. The outcome of a sequence of calls
  is what they returned and the state they left.
\<close>

definition reader_state :: "Reader \<Rightarrow> store \<Rightarrow> OldSStable \<times> Buffer option" where
  "reader_state r s =
     (members r,
      case data_buffer r of None \<Rightarrow> None
      | Some a \<Rightarrow> if a < length s then Some (s ! a) else None)"

definition outcome ::
  "error + ('v \<times> Reader \<times> store) \<Rightarrow> error + ('v \<times> OldSStable \<times> Buffer option)" where
  "outcome x = (case x of Inl e \<Rightarrow> Inl e | Inr (v, r, s) \<Rightarrow> Inr (v, reader_state r s))"

text \<open>
  The outcome of the calls \<open>calls_t\<close> on a reader, made after its duplicate has been
  taken and the calls \<open>calls_d\<close> have been made on the duplicate.
\<close>

definition after_duplicate ::
  "Partitioner option \<Rightarrow> reader_call list \<Rightarrow> reader_call list \<Rightarrow> Reader \<Rightarrow> store \<Rightarrow>
   error + (observation list \<times> OldSStable \<times> Buffer option)" where
  "after_duplicate p calls_d calls_t r s =
     (case call_sequence p calls_d (duplicate r) s of
        Inl e \<Rightarrow> Inl e
      | Inr (obs, d', s') \<Rightarrow> outcome (call_sequence p calls_t r s'))"

definition keys_seen ::
  "error + (observation list \<times> OldSStable \<times> Buffer option) \<Rightarrow> (observation list \<times> bytes) option" where
  "keys_seen x = (case x of Inl e \<Rightarrow> None | Inr (obs, t, b) \<Rightarrow> Some (obs, next_key_value t))"

subsection \<open>Positioning a reader: \<^verbatim>\<open>init\<close> and \<^verbatim>\<open>init_at_key\<close>\<close>

text \<open>
  The binary search of \<^verbatim>\<open>find_partition_in_summary\<close> over the table of native-endian
  32-bit offsets at the head of \<open>toc\<close>. \<open>lower_bounds\<close> is the offset in \<open>toc\<close> of the
  position that follows the last key found to be at most the target; \<open>n_keys\<close> is the
  variable \<^verbatim>\<open>size\<close>, \<open>lo\<close> and \<open>hi\<close> are \<^verbatim>\<open>bottom\<close> and \<^verbatim>\<open>top\<close>. The token of each key is computed into a local array that starts
  uninitialised (\<open>tok\<close>).
\<close>

definition toc_int32 :: "bytes \<Rightarrow> int \<Rightarrow> error + int" where
  "toc_int32 toc i =
     (if i < 0 \<or> int (length toc) < 4 * (i + 1) then Inl OutOfBounds
      else Inr (sint (le_value (take 4 (drop (nat (4 * i)) toc)) :: 32 word)))"

function summary_search ::
  "Partitioner \<Rightarrow> Token \<Rightarrow> bytes \<Rightarrow> Token \<Rightarrow> bytes \<Rightarrow> int \<Rightarrow> int \<Rightarrow> int \<Rightarrow> int \<Rightarrow>
   nat option \<Rightarrow> error + nat option" where
  "summary_search p first_token first_key tok toc n_keys memSize lo hi lower_bounds =
     (if lo < hi
      then
        (let middle = lo + (hi - lo) div 2
         in case toc_int32 toc middle of
              Inl e \<Rightarrow> Inl e
            | Inr offs \<Rightarrow>
                (case (if middle + 1 = n_keys then Inr memSize else toc_int32 toc (middle + 1)) of
                   Inl e \<Rightarrow> Inl e
                 | Inr next_offset \<Rightarrow>
                     if \<not> next_offset \<le> memSize \<or> \<not> offs < next_offset then Inl AssertionFailed
                     else if offs < 0 \<or> next_offset - offs < 8 \<or> int (length toc) < next_offset
                       then Inl OutOfBounds
                     else
                       (let len = nat (next_offset - offs - 8);
                            key = take len (drop (nat offs) toc);
                            comp = compare_token p first_token first_key (assign_token p tok key) key;
                            lower_bounds' = (if 0 \<le> comp then Some (nat offs + len) else lower_bounds)
                        in if comp < 0
                           then summary_search p first_token first_key tok toc n_keys memSize
                                  lo (middle - 1) lower_bounds'
                           else if 0 < comp
                           then summary_search p first_token first_key tok toc n_keys memSize
                                  (middle + 1) hi lower_bounds'
                           else Inr lower_bounds')))
      else Inr lower_bounds)"
  by pat_completeness auto
termination
  by (relation "measure (\<lambda>(p, ft, fk, tok, toc, n_keys, memSize, lo, hi, lb). nat (hi - lo))")
     auto

declare summary_search.simps [simp del]

text \<open>
  \<^verbatim>\<open>find_partition_in_summary\<close>: \<open>Inr None\<close> is the return value false, \<open>Inr (Some found)\<close>
  is true with the position in the index file.
\<close>

definition find_partition_in_summary ::
  "Partitioner \<Rightarrow> TableConfig \<Rightarrow> Token \<Rightarrow> bytes \<Rightarrow> Token \<Rightarrow> error + 64 word option" where
  "find_partition_in_summary p c first_token first_key tok =
     (case summary_file c of
        None \<Rightarrow> Inr None
      | Some f \<Rightarrow>
          (let (n_keys, b1) = read_int (skip_bytes 4 (new_buffer UncompressedBuffer f));
               (mem, b2) = read_longlong b1;
               memSize = (ucast mem :: 32 word);
               b3 = (if VERSION_KA \<le> version c then skip_bytes 8 b2 else b2)
           in case read_bytes (size_t_of_sint memSize) b3 of
                (None, b4) \<Rightarrow> Inr None
              | (Some toc, b4) \<Rightarrow>
                  (case summary_search p first_token first_key tok toc (sint n_keys) (sint memSize)
                          0 (sint n_keys - 1) None of
                     Inl e \<Rightarrow> Inl e
                   | Inr None \<Rightarrow> Inr None
                   | Inr (Some lb) \<Rightarrow> Inr (Some (le_value (take 8 (drop lb toc)))))))"

text \<open>
  The loop of \<^verbatim>\<open>init_at_key\<close> over the index file: \<^verbatim>\<open>while (!index_buffer.is_eof())\<close>. A
  promoted-index size is handed to \<^verbatim>\<open>skip_bytes\<close> and may move the position backwards, so
  the loop need not end: \<open>None\<close> is the run that never returns.
\<close>

partial_function (option) index_scan ::
  "Partitioner \<Rightarrow> Token \<Rightarrow> bytes \<Rightarrow> OldSStable \<Rightarrow> Buffer \<Rightarrow> (bool \<times> OldSStable) option" where
  "index_scan p first_token first_key t index_buffer =
     (if iseof index_buffer then Some (False, t)
      else
        (let kb = read_string index_buffer;
             pb = (if VERSION_MA \<le> version (config t) then read_unsigned_vint (snd kb)
                   else read_longlong (snd kb));
             tok = assign_token p (next_token_value t) (fst kb);
             t' = t\<lparr>next_key_value := fst kb, start_offset := fst pb, next_token_value := tok\<rparr>
         in if compare_token p first_token first_key tok (fst kb) \<le> 0 then Some (True, t')
            else
              (let sb = (if VERSION_MA \<le> version (config t) then read_unsigned_vint (snd pb)
                         else (case read_int (snd pb) of (n, b') \<Rightarrow> (scast n, b')))
               in index_scan p first_token first_key t' (skip_bytes (fst sb) (snd sb)))))"

declare index_scan.simps [code]

definition init_at_key ::
  "Partitioner \<Rightarrow> Token \<Rightarrow> bytes \<Rightarrow> Token \<Rightarrow> OldSStable \<Rightarrow> (error + bool \<times> OldSStable) option" where
  "init_at_key p first_token first_key tok t =
     (case index_file (config t) of
        None \<Rightarrow> Some (Inr (False, t))
      | Some f \<Rightarrow>
          (case find_partition_in_summary p (config t) first_token first_key tok of
             Inl e \<Rightarrow> Some (Inl e)
           | Inr found \<Rightarrow>
               map_option Inr
                 (index_scan p first_token first_key t
                    (case found of
                       None \<Rightarrow> new_buffer UncompressedBuffer f
                     | Some pos \<Rightarrow> seek pos (new_buffer UncompressedBuffer f)))))"

subsection \<open>CassandraParser.cpp: \<^verbatim>\<open>find\<close>\<close>

text \<open>
  \<^verbatim>\<open>std::sort\<close> with a comparator \<open>precedes\<close>. The order it gives to equivalent elements is
  unspecified; this is the insertion sort that keeps them in their order.
\<close>

fun insert_sorted :: "('a \<Rightarrow> 'a \<Rightarrow> bool) \<Rightarrow> 'a \<Rightarrow> 'a list \<Rightarrow> 'a list" where
  "insert_sorted precedes x [] = [x]"
| "insert_sorted precedes x (y # ys) =
     (if precedes y x then y # insert_sorted precedes x ys else x # y # ys)"

definition std_sort :: "('a \<Rightarrow> 'a \<Rightarrow> bool) \<Rightarrow> 'a list \<Rightarrow> 'a list" where
  "std_sort precedes xs = foldr (insert_sorted precedes) xs []"

definition Reader_Sorter :: "Partitioner \<Rightarrow> Reader \<Rightarrow> Reader \<Rightarrow> bool" where
  "Reader_Sorter p a b =
     (compare_token p (next_token_value (members a)) (next_key_value (members a))
        (next_token_value (members b)) (next_key_value (members b)) < 0)"

text \<open>
  The loop of \<^verbatim>\<open>find\<close> over \<^verbatim>\<open>m_tableConfig\<close>: a table is kept when \<^verbatim>\<open>init_at_key\<close>
  returns true. \<open>tok\<close> is what the uninitialised token arrays hold.
\<close>

fun find_tables ::
  "Partitioner \<Rightarrow> Token \<Rightarrow> bytes \<Rightarrow> Token \<Rightarrow> TableConfig list \<Rightarrow> (error + Reader list) option" where
  "find_tables p first_token first_key tok [] = Some (Inr [])"
| "find_tables p first_token first_key tok (c # cs) =
     (case init_at_key p first_token first_key tok (new_OldSStable c tok) of
        None \<Rightarrow> None
      | Some (Inl e) \<Rightarrow> Some (Inl e)
      | Some (Inr (found, t)) \<Rightarrow>
          (case find_tables p first_token first_key tok cs of
             None \<Rightarrow> None
           | Some (Inl e) \<Rightarrow> Some (Inl e)
           | Some (Inr readers) \<Rightarrow>
               Some (Inr (if found then \<lparr>data_buffer = None, members = t\<rparr> # readers else readers))))"

definition CassandraParser_find ::
  "Partitioner \<Rightarrow> TableConfig list \<Rightarrow> bytes \<Rightarrow> Token \<Rightarrow> (error + Reader list) option" where
  "CassandraParser_find p m_tableConfig primaryKey tok =
     (case find_tables p (assign_token p tok primaryKey) primaryKey tok m_tableConfig of
        None \<Rightarrow> None
      | Some (Inl e) \<Rightarrow> Some (Inl e)
      | Some (Inr readers) \<Rightarrow> Some (Inr (std_sort (Reader_Sorter p) readers)))"

section \<open>CassandraParser.cpp: the merge iterator\<close>

subsection \<open>Readers, as the iterator sees them\<close>

text \<open>
  The iterator works on a reader through the interface of \<^verbatim>\<open>SStable\<close> only: the
  accessors \<^verbatim>\<open>next_key\<close>, \<^verbatim>\<open>next_token\<close>, \<^verbatim>\<open>marked_for_deletion\<close> and \<^verbatim>\<open>next_column\<close>,
  and the methods \<^verbatim>\<open>open\<close>, \<^verbatim>\<open>close\<close>, \<^verbatim>\<open>read_row\<close>, \<^verbatim>\<open>read_column\<close> and
  \<^verbatim>\<open>read_column_data\<close>. For the merge a reader is what that interface delivers from a
  well-formed data file: the partitions still to come, each with its key, its deletion
  time and its cells; a cell is the \<^verbatim>\<open>ColumnInfo\<close> that \<^verbatim>\<open>next_column\<close> shows while the
  cell is current, and the value that \<^verbatim>\<open>read_column_data\<close> returns for it.
\<close>

record Cell =
  cell_info :: ColumnInfo
  cell_value :: bytes

record Partition =
  partition_key :: bytes
  partition_deletion :: "64 word"
  partition_cells :: "Cell list"

text \<open>
  \<open>from_start_offset\<close> is the stream from \<^verbatim>\<open>start_offset\<close>, where \<^verbatim>\<open>open\<close> positions
  the buffer; \<open>can_open\<close> is the result of \<^verbatim>\<open>open\<close>.
\<close>

record SStable =
  next_key :: bytes
  next_token :: Token
  marked_for_deletion :: "64 word"
  next_column :: ColumnInfo
  column_data :: bytes
  columns_left :: "Cell list"
  partitions_left :: "Partition list"
  from_start_offset :: "Partition list"
  can_open :: bool

definition new_SStable :: "Token \<Rightarrow> bool \<times> Partition list \<Rightarrow> SStable" where
  "new_SStable uninitialised_token file =
     \<lparr>next_key = [], next_token = uninitialised_token, marked_for_deletion = 0,
      next_column = new_ColumnInfo, column_data = [], columns_left = [], partitions_left = [],
      from_start_offset = snd file, can_open = fst file\<rparr>"

definition table_open :: "SStable \<Rightarrow> bool \<times> SStable" where
  "table_open t = (can_open t, t\<lparr>partitions_left := from_start_offset t, columns_left := []\<rparr>)"

definition table_close :: "SStable \<Rightarrow> SStable" where
  "table_close t = t"

text \<open>
  \<^verbatim>\<open>read_column\<close>: false at the end of the partition, with the flags and the name
  cleared.
\<close>

definition read_column :: "SStable \<Rightarrow> bool \<times> SStable" where
  "read_column t =
     (case columns_left t of
        [] \<Rightarrow> (False, t\<lparr>next_column := (clear_flags (next_column t))\<lparr>name := []\<rparr>\<rparr>)
      | c # cs \<Rightarrow>
          (True, t\<lparr>next_column := cell_info c, column_data := cell_value c, columns_left := cs\<rparr>))"

text \<open>
  \<^verbatim>\<open>read_row\<close>: true at the end of the file, where the key it has read is empty;
  otherwise it takes the header of the next partition, assigns the token and reads the
  first column.
\<close>

definition read_row :: "Partitioner \<Rightarrow> SStable \<Rightarrow> bool \<times> SStable" where
  "read_row p t =
     (case partitions_left t of
        [] \<Rightarrow> (True, t\<lparr>next_key := []\<rparr>)
      | x # xs \<Rightarrow>
          (False,
           snd (read_column
                  (t\<lparr>next_key := partition_key x,
                     next_token := assign_token p (next_token t) (partition_key x),
                     marked_for_deletion := partition_deletion x,
                     columns_left := partition_cells x,
                     partitions_left := xs\<rparr>))))"

definition read_column_data :: "SStable \<Rightarrow> bytes \<times> SStable" where
  "read_column_data t = (column_data t, t)"

text \<open>\<^verbatim>\<open>init\<close>: \<^verbatim>\<open>if (open()) { read_row(&partitioner); close(); return true; } return false;\<close>\<close>

definition SStable_init :: "Partitioner \<Rightarrow> SStable \<Rightarrow> bool \<times> SStable" where
  "SStable_init p t =
     (case table_open t of
        (True, t1) \<Rightarrow> (True, table_close (snd (read_row p t1)))
      | (False, t1) \<Rightarrow> (False, t1))"

subsection \<open>The iterator\<close>

definition STILL_ACTIVE :: "64 word" where
  "STILL_ACTIVE = 0x8000000000000000"

text \<open>The calls on the sink \<^verbatim>\<open>DatabaseRow\<close>, in the order they are made.\<close>

datatype callback =
  new_row bytes
| new_column bytes bytes "64 word"
| new_column_with_ttl bytes bytes "64 word" "32 word" "32 word"

text \<open>
  \<^verbatim>\<open>m_active_tables\<close> is a \<^verbatim>\<open>std::set<size_t>\<close>: the list of its elements in increasing
  order. The two counters are \<^verbatim>\<open>size_t\<close>; they count partitions and do not reach
  \<open>2 ^ 64\<close>. \<^verbatim>\<open>m_last_token\<close> and \<^verbatim>\<open>m_last_key\<close> are the members of the \<^verbatim>\<open>DEBUG\<close> build.
\<close>

record iterator =
  m_next_table :: nat
  m_active_tables :: "nat list"
  m_tables :: "SStable list"
  m_skippedRecords :: nat
  m_cassandraReadRecords :: nat
  m_last_token :: Token
  m_last_key :: bytes

definition set_insert :: "nat \<Rightarrow> nat list \<Rightarrow> nat list" where
  "set_insert i xs = (if i \<in> set xs then xs else insort i xs)"

definition set_erase :: "nat \<Rightarrow> nat list \<Rightarrow> nat list" where
  "set_erase i xs = removeAll i xs"

text \<open>
  \<^verbatim>\<open>match_table\<close>. The array \<^verbatim>\<open>matches\<close> with its length \<^verbatim>\<open>n_matches\<close> is the list of its
  first \<^verbatim>\<open>n_matches\<close> elements.
\<close>

definition match_table :: "Partitioner \<Rightarrow> SStable list \<Rightarrow> nat list \<Rightarrow> nat \<Rightarrow> bool \<times> nat list" where
  "match_table p tables matches index =
     (let comparison =
            (if matches \<noteq> []
             then compare_token p (next_token (tables ! index)) (next_key (tables ! index))
                    (next_token (tables ! hd matches)) (next_key (tables ! hd matches))
             else - 1)
      in if comparison < 0 then (True, [index])
         else if comparison = 0 then (True, matches @ [index])
         else (False, matches))"

text \<open>
  \<^verbatim>\<open>activate_table\<close> and \<^verbatim>\<open>deactivate_table\<close>. The callers pass an index below
  \<^verbatim>\<open>m_tables.size()\<close>.
\<close>

definition activate_table :: "Partitioner \<Rightarrow> nat \<Rightarrow> iterator \<Rightarrow> iterator" where
  "activate_table p index it =
     (if index < length (m_tables it)
      then
        (case table_open (m_tables it ! index) of
           (True, t1) \<Rightarrow>
             (case read_row p t1 of
                (eof, t2) \<Rightarrow>
                  it\<lparr>m_tables := (m_tables it)[index := t2],
                     m_active_tables :=
                       (if eof then m_active_tables it else set_insert index (m_active_tables it))\<rparr>)
         | (False, t1) \<Rightarrow> it\<lparr>m_tables := (m_tables it)[index := t1]\<rparr>)
      else it)"

definition deactivate_table :: "nat \<Rightarrow> iterator \<Rightarrow> iterator" where
  "deactivate_table index it =
     it\<lparr>m_tables := (m_tables it)[index := table_close (m_tables it ! index)],
        m_active_tables := set_erase index (m_active_tables it)\<rparr>"

lemma activate_table_next_table [simp]:
  "m_next_table (activate_table p index it) = m_next_table it"
  by (simp add: activate_table_def split: prod.splits bool.splits)

lemma activate_table_length [simp]:
  "length (m_tables (activate_table p index it)) = length (m_tables it)"
  by (simp add: activate_table_def split: prod.splits bool.splits)

text \<open>
  \<^verbatim>\<open>find_first_row_matches\<close>: the scan of the active tables, then the loop that opens
  further tables while the next one matches.
\<close>

function open_matching_tables :: "Partitioner \<Rightarrow> iterator \<Rightarrow> nat list \<Rightarrow> iterator \<times> nat list" where
  "open_matching_tables p it matches =
     (if m_next_table it < length (m_tables it)
      then
        (case match_table p (m_tables it) matches (m_next_table it) of
           (True, matches') \<Rightarrow>
             open_matching_tables p
               (activate_table p (m_next_table it) (it\<lparr>m_next_table := Suc (m_next_table it)\<rparr>))
               matches'
         | (False, matches') \<Rightarrow> (it, matches'))
      else (it, matches))"
  by pat_completeness auto
termination
  by (relation "measure (\<lambda>(p, it, matches). length (m_tables it) - m_next_table it)") auto

declare open_matching_tables.simps [simp del]

definition find_first_row_matches :: "Partitioner \<Rightarrow> iterator \<Rightarrow> iterator \<times> nat list" where
  "find_first_row_matches p it =
     open_matching_tables p it
       (foldl (\<lambda>matches index. snd (match_table p (m_tables it) matches index)) []
          (m_active_tables it))"

text \<open>
  \<^verbatim>\<open>strcmp\<close> compares up to the first zero byte, byte by byte as \<^verbatim>\<open>unsigned char\<close>.
\<close>

definition c_str :: "bytes \<Rightarrow> bytes" where
  "c_str s = takeWhile (\<lambda>c. c \<noteq> 0) s"

definition strcmp :: "bytes \<Rightarrow> bytes \<Rightarrow> int" where
  "strcmp a b = (if c_str a < c_str b then - 1 else if c_str b < c_str a then 1 else 0)"

text \<open>
  \<^verbatim>\<open>find_first_column_matches\<close>: the loop over \<^verbatim>\<open>matches\<close>, with \<^verbatim>\<open>pMinString\<close> and the
  array \<^verbatim>\<open>matched_columns\<close> filled so far.
\<close>

fun first_column_scan :: "SStable list \<Rightarrow> nat list \<Rightarrow> bytes option \<Rightarrow> nat list \<Rightarrow> nat list" where
  "first_column_scan tables [] pMinString matched_columns = matched_columns"
| "first_column_scan tables (this_column # rest) pMinString matched_columns =
     (let this_identifier = name (next_column (tables ! this_column));
          comparision = (case pMinString of None \<Rightarrow> - 1 | Some m \<Rightarrow> strcmp this_identifier m)
      in if comparision < 0
         then first_column_scan tables rest (Some this_identifier) [this_column]
         else if comparision = 0
         then first_column_scan tables rest pMinString (matched_columns @ [this_column])
         else first_column_scan tables rest pMinString matched_columns)"

definition find_first_column_matches :: "SStable list \<Rightarrow> nat list \<Rightarrow> nat list" where
  "find_first_column_matches tables matches = first_column_scan tables matches None []"

text \<open>\<^verbatim>\<open>choose_latest_match\<close> returns the reader; here its index in \<^verbatim>\<open>m_tables\<close>.\<close>

definition choose_latest_match :: "SStable list \<Rightarrow> nat list \<Rightarrow> nat" where
  "choose_latest_match tables matched_columns =
     fst (foldl (\<lambda>(lastTs_index, lastTs) this_index.
                   (let thisTs = ts (next_column (tables ! this_index))
                    in if lastTs <s thisTs then (this_index, thisTs) else (lastTs_index, lastTs)))
            (hd matched_columns, ts (next_column (tables ! hd matched_columns)))
            (tl matched_columns))"

text \<open>
  The \<^verbatim>\<open>std::map<std::string, int64_t>\<close> of range tombstones is the list of its entries in
  key order. \<open>map_assign\<close> is \<^verbatim>\<open>tombstones[k] = v\<close>.
\<close>

type_synonym tombstone_map = "(bytes \<times> 64 word) list"

fun map_assign :: "bytes \<Rightarrow> 64 word \<Rightarrow> tombstone_map \<Rightarrow> tombstone_map" where
  "map_assign k v [] = [(k, v)]"
| "map_assign k v ((k', v') # m) =
     (if k < k' then (k, v) # (k', v') # m
      else if k = k' then (k, v) # m
      else (k', v') # map_assign k v m)"

definition later_time :: "64 word \<Rightarrow> 64 word \<Rightarrow> 64 word" where
  "later_time minTime t = (if minTime = STILL_ACTIVE \<or> minTime <s t then t else minTime)"

definition fold_range_tombstone ::
  "SStable list \<Rightarrow> tombstone_map \<times> 64 word \<Rightarrow> nat \<Rightarrow> tombstone_map \<times> 64 word" where
  "fold_range_tombstone tables st this_column =
     (let c = next_column (tables ! this_column)
      in if range_tombstone c
         then ((case map_of (fst st) (data c) of
                  None \<Rightarrow> map_assign (data c) (ts c) (fst st)
                | Some found \<Rightarrow>
                    if found <s ts c then map_assign (data c) (ts c) (fst st) else fst st),
               later_time (snd st) (ts c))
         else st)"

definition update_tombstones ::
  "SStable list \<Rightarrow> tombstone_map \<Rightarrow> 64 word \<Rightarrow> nat list \<Rightarrow> 64 word \<Rightarrow> bytes \<Rightarrow>
   tombstone_map \<times> 64 word" where
  "update_tombstones tables tombstones minTime matches row_deletion nm =
     (let st = foldl (fold_range_tombstone tables) (tombstones, minTime) matches
      in if takeWhile (\<lambda>e. fst e < nm) (fst st) \<noteq> []
         then (let remaining = dropWhile (\<lambda>e. fst e < nm) (fst st)
               in (remaining, foldl (\<lambda>m e. later_time m (snd e)) row_deletion remaining))
         else st)"

text \<open>
  The removal of a reader from the row matches:
  \<^verbatim>\<open>position = std::find(matches, matches + n_matches, index); *position = matches[--n_matches];\<close>
\<close>

definition swap_remove :: "nat list \<Rightarrow> nat \<Rightarrow> nat list" where
  "swap_remove matches index =
     (let n = length matches - 1
      in take n (matches[length (takeWhile (\<lambda>x. x \<noteq> index) matches) := matches ! n]))"

text \<open>
  The loop \<^verbatim>\<open>for (i = 0; i < column_matches; i++)\<close> that moves every matched reader on.
  An index outside \<^verbatim>\<open>m_tables\<close> does not occur; such a reader counts as exhausted.
\<close>

fun advance_columns :: "Partitioner \<Rightarrow> nat list \<Rightarrow> iterator \<Rightarrow> nat list \<Rightarrow> iterator \<times> nat list" where
  "advance_columns p [] it matches = (it, matches)"
| "advance_columns p (index # rest) it matches =
     (if index < length (m_tables it)
      then
        (case read_column (m_tables it ! index) of
           (True, t1) \<Rightarrow>
             advance_columns p rest (it\<lparr>m_tables := (m_tables it)[index := t1]\<rparr>) matches
         | (False, t1) \<Rightarrow>
             (case read_row p t1 of
                (eof, t2) \<Rightarrow>
                  advance_columns p rest
                    ((if eof then deactivate_table index else id)
                       (it\<lparr>m_tables := (m_tables it)[index := t2]\<rparr>))
                    (swap_remove matches index)))
      else advance_columns p rest (deactivate_table index it) (swap_remove matches index))"

subsection \<open>The work left in the readers\<close>

text \<open>
  The loops of the iterator end because each turn consumes a cell or a partition
  header of some reader, or takes a reader out of the row matches or out of the active
  set. \<open>table_weight\<close> counts what a reader has left.
\<close>

definition stream_weight :: "Partition list \<Rightarrow> nat" where
  "stream_weight xs = sum_list (map (\<lambda>x. length (partition_cells x) + 2) xs)"

definition table_weight :: "SStable \<Rightarrow> nat" where
  "table_weight t = length (columns_left t) + stream_weight (partitions_left t)"

definition tables_weight :: "SStable list \<Rightarrow> nat" where
  "tables_weight tables = sum_list (map table_weight tables)"

lemma tables_weight_update:
  "index < length tables \<Longrightarrow>
   tables_weight (tables[index := t]) = tables_weight tables + table_weight t - table_weight (tables ! index)"
  by (simp add: tables_weight_def map_update sum_list_update)

lemma table_weight_le_tables_weight:
  "index < length tables \<Longrightarrow> table_weight (tables ! index) \<le> tables_weight tables"
proof (induction tables arbitrary: index)
  case Nil
  then show ?case by simp
next
  case (Cons a tables)
  show ?case
  proof (cases index)
    case 0
    then show ?thesis by (simp add: tables_weight_def)
  next
    case (Suc j)
    with Cons.prems have "j < length tables" by simp
    from Cons.IH [OF this] Suc show ?thesis by (simp add: tables_weight_def)
  qed
qed

lemma read_column_weight:
  "read_column t = (another, t') \<Longrightarrow>
   table_weight t' = (if another then table_weight t - 1 else table_weight t) \<and>
   (another \<longrightarrow> 0 < table_weight t)"
  by (auto simp: read_column_def table_weight_def split: list.splits)

lemma read_row_weight:
  "read_row p t = (eof, t') \<Longrightarrow>
   (if eof then table_weight t' = table_weight t else table_weight t' + 2 \<le> table_weight t)"
  by (auto simp: read_row_def read_column_def table_weight_def stream_weight_def split: list.splits)

lemma length_swap_remove [simp]: "length (swap_remove matches index) = length matches - 1"
  by (simp add: swap_remove_def Let_def)

lemma deactivate_table_tables [simp]: "m_tables (deactivate_table index it) = m_tables it"
  by (simp add: deactivate_table_def table_close_def)

lemma advance_columns_weight:
  "advance_columns p matched_columns it matches = (it', matches') \<Longrightarrow>
   tables_weight (m_tables it') + length matches' \<le> tables_weight (m_tables it) + length matches \<and>
   (matched_columns \<noteq> [] \<and> matches \<noteq> [] \<longrightarrow>
      tables_weight (m_tables it') + length matches' < tables_weight (m_tables it) + length matches)"
proof (induction matched_columns arbitrary: it matches)
  case Nil
  then show ?case by simp
next
  case (Cons index rest)
  show ?case
  proof (cases "index < length (m_tables it)")
    case False
    with Cons.prems have "advance_columns p rest (deactivate_table index it) (swap_remove matches index) = (it', matches')"
      by simp
    from Cons.IH [OF this] show ?thesis by (cases matches) auto
  next
    case True
    obtain another t1 where rc: "read_column (m_tables it ! index) = (another, t1)"
      by (cases "read_column (m_tables it ! index)")
    note w1 = read_column_weight [OF rc]
    note le = table_weight_le_tables_weight [OF True]
    show ?thesis
    proof (cases another)
      case True
      with Cons.prems \<open>index < length (m_tables it)\<close> rc
      have "advance_columns p rest (it\<lparr>m_tables := (m_tables it)[index := t1]\<rparr>) matches = (it', matches')"
        by simp
      from Cons.IH [OF this] w1 True le \<open>index < length (m_tables it)\<close> show ?thesis
        by (auto simp: tables_weight_update)
    next
      case False
      obtain eof t2 where rr: "read_row p t1 = (eof, t2)" by (cases "read_row p t1")
      note w2 = read_row_weight [OF rr]
      from Cons.prems \<open>index < length (m_tables it)\<close> rc rr False
      have "advance_columns p rest
              ((if eof then deactivate_table index else id) (it\<lparr>m_tables := (m_tables it)[index := t2]\<rparr>))
              (swap_remove matches index) = (it', matches')"
        by simp
      from Cons.IH [OF this] w1 w2 False le \<open>index < length (m_tables it)\<close> show ?thesis
        by (cases matches) (auto simp: tables_weight_update split: if_splits)
    qed
  qed
qed

lemma first_column_scan_Nil [simp]: "first_column_scan tables [] pMinString matched_columns = matched_columns"
  by simp

lemma find_first_column_matches_Nil [simp]: "find_first_column_matches tables [] = []"
  by (simp add: find_first_column_matches_def)

subsection \<open>\<^verbatim>\<open>next_record\<close> and \<^verbatim>\<open>next\<close>\<close>

text \<open>
  The \<^verbatim>\<open>while\<close> loop of \<^verbatim>\<open>next_record\<close> over the columns of the matched readers.
  \<open>row_deletion\<close> is the local \<^verbatim>\<open>marked_for_deletion\<close>; \<open>sink\<close> is the list of the
  calls made on the sink so far.
\<close>

definition emit_column :: "bytes \<Rightarrow> bytes \<Rightarrow> ColumnInfo \<Rightarrow> callback" where
  "emit_column nm d nextColumn =
     (if expiring nextColumn
      then new_column_with_ttl nm d (ts nextColumn) (ttl nextColumn) (expiration nextColumn)
      else new_column nm d (ts nextColumn))"

function column_loop ::
  "Partitioner \<Rightarrow> 64 word \<Rightarrow> iterator \<Rightarrow> nat list \<Rightarrow> tombstone_map \<Rightarrow> 64 word \<Rightarrow> bool \<Rightarrow>
   callback list \<Rightarrow> iterator \<times> bool \<times> callback list" where
  "column_loop p row_deletion it matches tombstones minTime has_columns sink =
     (let matched_columns = find_first_column_matches (m_tables it) matches
      in if matched_columns = [] then (it, has_columns, sink)
         else
           (let nm = name (next_column (m_tables it ! hd matched_columns));
                tm = update_tombstones (m_tables it) tombstones minTime matches row_deletion nm;
                latest = choose_latest_match (m_tables it) matched_columns;
                nextColumn = next_column (m_tables it ! latest);
                live = (nm \<noteq> [] \<and> \<not> deleted nextColumn \<and>
                        (snd tm = STILL_ACTIVE \<or> snd tm <s ts nextColumn));
                dt = read_column_data (m_tables it ! latest);
                it1 = (if live then it\<lparr>m_tables := (m_tables it)[latest := snd dt]\<rparr> else it);
                sink1 = (if live then sink @ [emit_column nm (fst dt) nextColumn] else sink);
                am = advance_columns p matched_columns it1 matches
            in column_loop p row_deletion (fst am) (snd am) (fst tm) (snd tm)
                 (has_columns \<or> live) sink1))"
  by pat_completeness auto
termination
proof (relation "measure (\<lambda>(p, row_deletion, it, matches, tombstones, minTime, has_columns, sink).
                   tables_weight (m_tables it) + length matches)", goal_cases)
  case 1
  show ?case by simp
next
  case (2 p row_deletion it matches tombstones minTime has_columns sink
          matched_columns nm tm latest nextColumn live dt it1 sink1 am)
  have same: "m_tables it1 = m_tables it"
    using 2 by (simp add: read_column_data_def)
  have ne: "matches \<noteq> []" using 2 by auto
  from advance_columns_weight [of p matched_columns it1 matches "fst am" "snd am"] 2 same ne
  show ?case by auto
qed

declare column_loop.simps [simp del]

definition row_deletion_time :: "SStable list \<Rightarrow> nat list \<Rightarrow> 64 word" where
  "row_deletion_time tables matches =
     foldl (\<lambda>row_deletion i.
              (let this_deletion = marked_for_deletion (tables ! i)
               in if this_deletion \<noteq> STILL_ACTIVE \<and>
                     (row_deletion = STILL_ACTIVE \<or> row_deletion <s this_deletion)
                  then this_deletion else row_deletion))
       STILL_ACTIVE matches"

definition next_record :: "Partitioner \<Rightarrow> iterator \<Rightarrow> bool \<times> iterator \<times> callback list" where
  "next_record p it =
     (let fm = find_first_row_matches p it;
          matches = snd fm
      in if matches = [] then (False, fst fm, [])
         else
           (let first = m_tables (fst fm) ! hd matches;
                it1 = (fst fm)\<lparr>m_last_token := next_token first, m_last_key := next_key first\<rparr>;
                row_deletion = row_deletion_time (m_tables it1) matches;
                cl = column_loop p row_deletion it1 matches [] row_deletion False
                       [new_row (next_key first)];
                it2 = (fst cl)\<lparr>m_cassandraReadRecords := Suc (m_cassandraReadRecords (fst cl))\<rparr>
            in if row_deletion \<noteq> STILL_ACTIVE \<and> \<not> fst (snd cl)
               then (False, it2\<lparr>m_skippedRecords := Suc (m_skippedRecords it2)\<rparr>, snd (snd cl))
               else (True, it2, snd (snd cl))))"

text \<open>
  \<^verbatim>\<open>begin\<close>: the readers whose \<^verbatim>\<open>init\<close> succeeds, sorted by their first key, and the
  constructor of the iterator. A file is given by whether its data buffer opens and by
  its partitions.
\<close>

definition Sorter :: "Partitioner \<Rightarrow> SStable \<Rightarrow> SStable \<Rightarrow> bool" where
  "Sorter p a b = (compare_token p (next_token a) (next_key a) (next_token b) (next_key b) < 0)"

definition new_iterator :: "SStable list \<Rightarrow> Token \<Rightarrow> iterator" where
  "new_iterator tables uninitialised_token =
     \<lparr>m_next_table = 0, m_active_tables = [], m_tables = tables, m_skippedRecords = 0,
      m_cassandraReadRecords = 0, m_last_token = uninitialised_token, m_last_key = []\<rparr>"

definition initialised_tables :: "Partitioner \<Rightarrow> Token \<Rightarrow> (bool \<times> Partition list) list \<Rightarrow> SStable list" where
  "initialised_tables p tok files =
     map snd (filter fst (map (\<lambda>f. SStable_init p (new_SStable tok f)) files))"

definition CassandraParser_begin :: "Partitioner \<Rightarrow> Token \<Rightarrow> (bool \<times> Partition list) list \<Rightarrow> iterator" where
  "CassandraParser_begin p tok files = new_iterator (std_sort (Sorter p) (initialised_tables p tok files)) tok"

text \<open>
  For the loop of \<^verbatim>\<open>next\<close>: a reader that has not been activated yet still has its whole
  stream to deliver, and its activation costs one unit more.
\<close>

definition unopened_weight :: "iterator \<Rightarrow> nat" where
  "unopened_weight it =
     sum_list (map (\<lambda>t. stream_weight (from_start_offset t) + 2)
                 (drop (m_next_table it) (m_tables it)))"

definition iterator_weight :: "iterator \<Rightarrow> nat" where
  "iterator_weight it =
     tables_weight (m_tables it) + unopened_weight it + length (m_active_tables it)"

lemma read_column_from_start [simp]:
  "from_start_offset (snd (read_column t)) = from_start_offset t"
  by (simp add: read_column_def split: list.splits)

lemma read_row_from_start [simp]:
  "from_start_offset (snd (read_row p t)) = from_start_offset t"
  by (simp add: read_row_def split: list.splits)

lemma table_open_from_start [simp]:
  "from_start_offset (snd (table_open t)) = from_start_offset t"
  by (simp add: table_open_def)

lemma unopened_weight_cong:
  "m_next_table it' = m_next_table it \<Longrightarrow>
   map from_start_offset (m_tables it') = map from_start_offset (m_tables it) \<Longrightarrow>
   unopened_weight it' = unopened_weight it"
proof -
  assume a: "m_next_table it' = m_next_table it"
    and b: "map from_start_offset (m_tables it') = map from_start_offset (m_tables it)"
  have "map (\<lambda>t. stream_weight (from_start_offset t) + 2) (drop n ts) =
        map (\<lambda>w. stream_weight w + 2) (drop n (map from_start_offset ts))" for n and ts :: "SStable list"
    by (simp add: drop_map)
  then show ?thesis using a b by (simp add: unopened_weight_def)
qed

lemma map_from_start_update:
  "from_start_offset t = from_start_offset (tables ! index) \<Longrightarrow>
   map from_start_offset (tables[index := t]) = map from_start_offset tables"
  by (metis list_update_id map_update)

lemma length_set_erase: "length (set_erase i xs) \<le> length xs"
  by (simp add: set_erase_def)

lemma length_set_erase_member: "i \<in> set xs \<Longrightarrow> length (set_erase i xs) < length xs"
  by (simp add: set_erase_def length_removeAll_less)

lemma length_set_insert: "length (set_insert i xs) \<le> Suc (length xs)"
  by (simp add: set_insert_def)

text \<open>Activating the next table makes the iterator lighter.\<close>

lemma table_open_read_row_weight:
  "table_weight (snd (read_row p (snd (table_open t)))) \<le> stream_weight (from_start_offset t)"
  by (auto simp: table_open_def read_row_def read_column_def table_weight_def stream_weight_def
           split: list.splits)

lemma activate_next_table_weight:
  assumes "m_next_table it < length (m_tables it)"
  shows "iterator_weight (activate_table p (m_next_table it) (it\<lparr>m_next_table := Suc (m_next_table it)\<rparr>))
         < iterator_weight it"
proof -
  let ?i = "m_next_table it"
  let ?t = "m_tables it ! ?i"
  let ?it' = "activate_table p ?i (it\<lparr>m_next_table := Suc ?i\<rparr>)"
  define t' where
    "t' = (if can_open ?t then snd (read_row p (snd (table_open ?t))) else snd (table_open ?t))"
  have tabs: "m_tables ?it' = (m_tables it)[?i := t']"
    using assms
    by (simp add: activate_table_def table_open_def t'_def split: prod.splits bool.splits)
  have w': "table_weight t' \<le> stream_weight (from_start_offset ?t)"
    using table_open_read_row_weight [of p ?t]
    by (simp add: t'_def) (simp add: table_open_def table_weight_def)
  have act: "length (m_active_tables ?it') \<le> Suc (length (m_active_tables it))"
    using assms length_set_insert [of ?i "m_active_tables it"]
    by (auto simp: activate_table_def split: prod.splits bool.splits if_splits)
  have dr: "drop ?i (m_tables it) = ?t # drop (Suc ?i) (m_tables it)"
    using assms by (simp add: Cons_nth_drop_Suc)
  have "drop (Suc ?i) (m_tables ?it') = drop (Suc ?i) (m_tables it)"
    using tabs by simp
  then have un: "unopened_weight ?it' + stream_weight (from_start_offset ?t) + 2 = unopened_weight it"
    using dr by (simp add: unopened_weight_def)
  have tw: "tables_weight (m_tables ?it') \<le> tables_weight (m_tables it) + stream_weight (from_start_offset ?t)"
    using assms tabs w' by (simp add: tables_weight_update)
  from un tw act show ?thesis by (simp add: iterator_weight_def)
qed

text \<open>The row matches come from the active set, or from the tables opened on the way.\<close>

lemma match_table_cases:
  "snd (match_table p tables matches index) = [index] \<or>
   snd (match_table p tables matches index) = matches @ [index] \<or>
   (snd (match_table p tables matches index) = matches \<and> matches \<noteq> [])"
  by (auto simp: match_table_def Let_def)

lemma scan_active_subset:
  "set (foldl (\<lambda>matches index. snd (match_table p tables matches index)) ms active) \<subseteq>
   set ms \<union> set active"
proof (induction active arbitrary: ms)
  case Nil
  then show ?case by simp
next
  case (Cons i active)
  from match_table_cases [of p tables ms i] Cons.IH [of "snd (match_table p tables ms i)"]
  show ?case by auto
qed

lemma scan_active_nonempty:
  "ms \<noteq> [] \<or> active \<noteq> [] \<Longrightarrow>
   foldl (\<lambda>matches index. snd (match_table p tables matches index)) ms active \<noteq> []"
proof (induction active arbitrary: ms)
  case Nil
  then show ?case by simp
next
  case (Cons i active)
  from match_table_cases [of p tables ms i] have "snd (match_table p tables ms i) \<noteq> []" by auto
  from Cons.IH [of "snd (match_table p tables ms i)"] this show ?case by simp
qed

lemma open_matching_tables_weight:
  "open_matching_tables p it matches = (it', matches') \<Longrightarrow>
   (it' = it \<and> matches' = matches) \<or> iterator_weight it' < iterator_weight it"
proof (induction p it matches arbitrary: it' matches' rule: open_matching_tables.induct)
  case (1 p it matches)
  show ?case
  proof (cases "m_next_table it < length (m_tables it)")
    case False
    with "1.prems" show ?thesis by (simp add: open_matching_tables.simps)
  next
    case True
    obtain b ms where mt: "match_table p (m_tables it) matches (m_next_table it) = (b, ms)"
      by (cases "match_table p (m_tables it) matches (m_next_table it)")
    show ?thesis
    proof (cases b)
      case False
      then have "ms = matches" using mt by (auto simp: match_table_def Let_def split: if_splits)
      with "1.prems" True mt False show ?thesis by (simp add: open_matching_tables.simps)
    next
      case b: True
      let ?it1 = "activate_table p (m_next_table it) (it\<lparr>m_next_table := Suc (m_next_table it)\<rparr>)"
      from "1.prems" True mt b have "open_matching_tables p ?it1 ms = (it', matches')"
        by (simp add: open_matching_tables.simps)
      moreover from b have "b = True" by simp
      ultimately have "(it' = ?it1 \<and> matches' = ms) \<or> iterator_weight it' < iterator_weight ?it1"
        using "1.IH" [OF True mt [symmetric]] by blast
      with activate_next_table_weight [OF True, of p] show ?thesis by auto
    qed
  qed
qed

lemma iterator_weight_update:
  assumes "index < length (m_tables it)"
      and "from_start_offset t = from_start_offset (m_tables it ! index)"
  shows "iterator_weight (it\<lparr>m_tables := (m_tables it)[index := t]\<rparr>) + table_weight (m_tables it ! index) =
         iterator_weight it + table_weight t"
proof -
  have "unopened_weight (it\<lparr>m_tables := (m_tables it)[index := t]\<rparr>) = unopened_weight it"
    using assms(2) by (intro unopened_weight_cong) (simp_all add: map_from_start_update)
  moreover have "table_weight (m_tables it ! index) \<le> tables_weight (m_tables it)"
    using assms(1) by (rule table_weight_le_tables_weight)
  ultimately show ?thesis
    using assms(1) by (simp add: iterator_weight_def tables_weight_update)
qed

lemma iterator_weight_deactivate:
  "iterator_weight (deactivate_table index it) \<le> iterator_weight it \<and>
   (index \<in> set (m_active_tables it) \<longrightarrow> iterator_weight (deactivate_table index it) < iterator_weight it)"
proof -
  have "unopened_weight (deactivate_table index it) = unopened_weight it"
    by (intro unopened_weight_cong) (simp_all add: deactivate_table_def table_close_def)
  then show ?thesis
    using length_set_erase [of index "m_active_tables it"]
          length_set_erase_member [of index "m_active_tables it"]
    by (auto simp: iterator_weight_def deactivate_table_def table_close_def)
qed

lemma deactivate_table_active_subset:
  "set (m_active_tables (deactivate_table index it)) \<subseteq> set (m_active_tables it)"
  by (auto simp: deactivate_table_def set_erase_def)

text \<open>One reader moved on by \<^verbatim>\<open>read_column\<close>, and by \<^verbatim>\<open>read_row\<close> when it is exhausted.\<close>

lemma advance_columns_iterator_weight:
  "advance_columns p matched_columns it matches = (it', matches') \<Longrightarrow>
   iterator_weight it' \<le> iterator_weight it \<and>
   (matched_columns \<noteq> [] \<and> hd matched_columns \<in> set (m_active_tables it) \<longrightarrow>
      iterator_weight it' < iterator_weight it)"
proof (induction matched_columns arbitrary: it matches)
  case Nil
  then show ?case by simp
next
  case (Cons index rest)
  show ?case
  proof (cases "index < length (m_tables it)")
    case False
    with Cons.prems have "advance_columns p rest (deactivate_table index it) (swap_remove matches index) = (it', matches')"
      by simp
    from Cons.IH [OF this] iterator_weight_deactivate [of index it] show ?thesis by auto
  next
    case inside: True
    obtain another t1 where rc: "read_column (m_tables it ! index) = (another, t1)"
      by (cases "read_column (m_tables it ! index)")
    note w1 = read_column_weight [OF rc]
    have f1: "from_start_offset t1 = from_start_offset (m_tables it ! index)"
      using read_column_from_start [of "m_tables it ! index"] rc by simp
    show ?thesis
    proof (cases another)
      case True
      with Cons.prems inside rc
      have "advance_columns p rest (it\<lparr>m_tables := (m_tables it)[index := t1]\<rparr>) matches = (it', matches')"
        by simp
      from Cons.IH [OF this] iterator_weight_update [OF inside f1] w1 True show ?thesis by auto
    next
      case False
      obtain eof t2 where rr: "read_row p t1 = (eof, t2)" by (cases "read_row p t1")
      note w2 = read_row_weight [OF rr]
      have f2: "from_start_offset t2 = from_start_offset (m_tables it ! index)"
        using read_row_from_start [of p t1] rr f1 by simp
      let ?it1 = "it\<lparr>m_tables := (m_tables it)[index := t2]\<rparr>"
      from Cons.prems inside rc rr False
      have adv: "advance_columns p rest ((if eof then deactivate_table index else id) ?it1)
              (swap_remove matches index) = (it', matches')"
        by simp
      have up: "iterator_weight ?it1 + table_weight (m_tables it ! index) = iterator_weight it + table_weight t2"
        by (rule iterator_weight_update [OF inside f2])
      have act: "m_active_tables ?it1 = m_active_tables it" by simp
      show ?thesis
      proof (cases eof)
        case True
        from Cons.IH [OF adv] iterator_weight_deactivate [of index ?it1] up w1 w2 False True act
        show ?thesis by auto
      next
        case False
        from Cons.IH [OF adv] up w1 w2 \<open>\<not> another\<close> False show ?thesis by auto
      qed
    qed
  qed
qed

lemma first_column_scan_nonempty:
  "matched_columns \<noteq> [] \<or> (pMinString = None \<and> matches \<noteq> []) \<Longrightarrow>
   first_column_scan tables matches pMinString matched_columns \<noteq> []"
proof (induction matches arbitrary: pMinString matched_columns)
  case Nil
  then show ?case by simp
next
  case (Cons i rest)
  show ?case
  proof (cases pMinString)
    case None
    then show ?thesis using Cons.IH [of "[i]"] by simp
  next
    case (Some m)
    with Cons.prems have "matched_columns \<noteq> []" by simp
    then show ?thesis
      using Some Cons.IH [of "[i]"] Cons.IH [of "matched_columns @ [i]"] Cons.IH [of matched_columns]
      by (simp add: Let_def)
  qed
qed

lemma first_column_scan_subset:
  "set (first_column_scan tables matches pMinString matched_columns) \<subseteq>
   set matches \<union> set matched_columns"
proof (induction matches arbitrary: pMinString matched_columns)
  case Nil
  then show ?case by simp
next
  case (Cons i rest)
  show ?case
    using Cons.IH [of "Some (name (next_column (tables ! i)))" "[i]"]
          Cons.IH [of pMinString "matched_columns @ [i]"] Cons.IH [of pMinString matched_columns]
    by (auto simp: Let_def)
qed

lemma find_first_column_matches_nonempty:
  "matches \<noteq> [] \<Longrightarrow> find_first_column_matches tables matches \<noteq> []"
  by (simp add: find_first_column_matches_def first_column_scan_nonempty)

lemma find_first_column_matches_subset:
  "set (find_first_column_matches tables matches) \<subseteq> set matches"
  using first_column_scan_subset [of tables matches None "[]"]
  by (simp add: find_first_column_matches_def)

lemma read_column_data_same [simp]:
  "it\<lparr>m_tables := (m_tables it)[latest := snd (read_column_data (m_tables it ! latest))]\<rparr> = it"
  by (simp add: read_column_data_def)

text \<open>One turn of the column loop, with the local variables of the turn named.\<close>

lemma column_loop_unfold:
  fixes p row_deletion it matches tombstones minTime has_columns sink
  assumes "find_first_column_matches (m_tables it) matches \<noteq> []"
  defines "mc \<equiv> find_first_column_matches (m_tables it) matches"
  defines "nm \<equiv> name (next_column (m_tables it ! hd mc))"
  defines "tm \<equiv> update_tombstones (m_tables it) tombstones minTime matches row_deletion nm"
  defines "nextColumn \<equiv> next_column (m_tables it ! choose_latest_match (m_tables it) mc)"
  defines "live \<equiv> nm \<noteq> [] \<and> \<not> deleted nextColumn \<and>
                     (snd tm = STILL_ACTIVE \<or> snd tm <s ts nextColumn)"
  defines "am \<equiv> advance_columns p mc it matches"
  shows "column_loop p row_deletion it matches tombstones minTime has_columns sink =
         column_loop p row_deletion (fst am) (snd am) (fst tm) (snd tm) (has_columns \<or> live)
           (if live
            then sink @ [emit_column nm
                           (column_data (m_tables it ! choose_latest_match (m_tables it) mc))
                           nextColumn]
            else sink)"
  using assms(1)
  by (subst column_loop.simps)
     (simp add: Let_def mc_def nm_def tm_def nextColumn_def live_def am_def read_column_data_def)

lemma column_loop_iterator_weight:
  "column_loop p row_deletion it matches tombstones minTime has_columns sink = (it', has_columns', sink') \<Longrightarrow>
   iterator_weight it' \<le> iterator_weight it \<and>
   (matches \<noteq> [] \<and> set matches \<subseteq> set (m_active_tables it) \<longrightarrow>
      iterator_weight it' < iterator_weight it)"
proof (induction "tables_weight (m_tables it) + length matches"
       arbitrary: it matches tombstones minTime has_columns sink rule: less_induct)
  case less
  let ?mc = "find_first_column_matches (m_tables it) matches"
  show ?case
  proof (cases "?mc = []")
    case True
    with less.prems find_first_column_matches_nonempty [of matches "m_tables it"] show ?thesis
      by (auto simp: column_loop.simps)
  next
    case False
    define am where "am = advance_columns p ?mc it matches"
    have am: "advance_columns p ?mc it matches = (fst am, snd am)" by (simp add: am_def)
    have ne: "matches \<noteq> []" using False by auto
    from column_loop_unfold [OF False, of p row_deletion tombstones minTime has_columns sink] less.prems
    obtain tm' mt' hc' sk' where
      rec: "column_loop p row_deletion (fst am) (snd am) tm' mt' hc' sk' = (it', has_columns', sink')"
      by (simp add: am_def)
    have dec: "tables_weight (m_tables (fst am)) + length (snd am)
               < tables_weight (m_tables it) + length matches"
      using advance_columns_weight [OF am] False ne by simp
    from less.hyps [OF dec rec] have step: "iterator_weight it' \<le> iterator_weight (fst am)"
      by simp
    from advance_columns_iterator_weight [OF am] step
         find_first_column_matches_subset [of "m_tables it" matches] False
    show ?thesis
      by (cases ?mc) auto
  qed
qed

text \<open>The fields that the weight does not read.\<close>

lemma iterator_weight_fields [simp]:
  "iterator_weight (it\<lparr>m_last_token := a\<rparr>) = iterator_weight it"
  "iterator_weight (it\<lparr>m_last_key := b\<rparr>) = iterator_weight it"
  "iterator_weight (it\<lparr>m_cassandraReadRecords := c\<rparr>) = iterator_weight it"
  "iterator_weight (it\<lparr>m_skippedRecords := d\<rparr>) = iterator_weight it"
  by (simp_all add: iterator_weight_def unopened_weight_def)

lemma find_first_row_matches_weight:
  assumes "find_first_row_matches p it = (it1, matches)"
  shows "(it1 = it \<and> set matches \<subseteq> set (m_active_tables it) \<and>
            (m_active_tables it \<noteq> [] \<longrightarrow> matches \<noteq> [])) \<or>
         iterator_weight it1 < iterator_weight it"
proof -
  define ms where
    "ms = foldl (\<lambda>matches index. snd (match_table p (m_tables it) matches index)) []
            (m_active_tables it)"
  have 1: "open_matching_tables p it ms = (it1, matches)"
    using assms by (simp add: find_first_row_matches_def ms_def)
  have 2: "set ms \<subseteq> set (m_active_tables it)"
    using scan_active_subset [of p "m_tables it" "[]" "m_active_tables it"] by (simp add: ms_def)
  have 3: "m_active_tables it \<noteq> [] \<Longrightarrow> ms \<noteq> []"
    using scan_active_nonempty [of "[]" "m_active_tables it" p "m_tables it"] by (simp add: ms_def)
  from open_matching_tables_weight [OF 1] 2 3 show ?thesis by auto
qed

lemma next_record_weight:
  assumes "next_record p it = (r, it', sink)"
  shows "iterator_weight it' \<le> iterator_weight it \<and>
         (m_active_tables it \<noteq> [] \<longrightarrow> iterator_weight it' < iterator_weight it)"
proof -
  obtain it1 matches where fm: "find_first_row_matches p it = (it1, matches)"
    by (cases "find_first_row_matches p it")
  note w = find_first_row_matches_weight [OF fm]
  show ?thesis
  proof (cases "matches = []")
    case True
    with assms fm have "it' = it1" by (simp add: next_record_def)
    with w True show ?thesis by auto
  next
    case False
    define first where "first = m_tables it1 ! hd matches"
    define it2 where "it2 = it1\<lparr>m_last_token := next_token first, m_last_key := next_key first\<rparr>"
    define rd where "rd = row_deletion_time (m_tables it2) matches"
    obtain it3 hc sk where cl: "column_loop p rd it2 matches [] rd False [new_row (next_key first)] = (it3, hc, sk)"
      by (cases "column_loop p rd it2 matches [] rd False [new_row (next_key first)]")
    from assms fm False cl have "iterator_weight it' = iterator_weight it3"
      by (auto simp: next_record_def Let_def first_def it2_def rd_def split: if_splits)
    moreover have "m_active_tables it2 = m_active_tables it1" "iterator_weight it2 = iterator_weight it1"
      by (simp_all add: it2_def)
    moreover note column_loop_iterator_weight [OF cl] w False
    ultimately show ?thesis by auto
  qed
qed

text \<open>
  \<^verbatim>\<open>next\<close>: the \<^verbatim>\<open>do ... while (!next_record(row))\<close> loop. The calls on the sink of the
  records that were skipped stay where they were made.
\<close>

function iterator_next :: "Partitioner \<Rightarrow> iterator \<Rightarrow> bool \<times> iterator \<times> callback list" where
  "iterator_next p it =
     (if m_active_tables it = [] \<and> length (m_tables it) \<le> m_next_table it then (False, it, [])
      else
        (let it1 = (if m_active_tables it = []
                    then activate_table p (m_next_table it) (it\<lparr>m_next_table := Suc (m_next_table it)\<rparr>)
                    else it);
             r = next_record p it1
         in if fst r then r
            else (let r2 = iterator_next p (fst (snd r))
                  in (fst r2, fst (snd r2), snd (snd r) @ snd (snd r2)))))"
  by pat_completeness auto
termination
proof (relation "measure (\<lambda>(p, it). iterator_weight it)", goal_cases)
  case 1
  show ?case by simp
next
  case (2 p it it1 r)
  obtain b it' sk where r: "next_record p it1 = (b, it', sk)" by (cases "next_record p it1")
  note w = next_record_weight [OF r]
  show ?case
  proof (cases "m_active_tables it = []")
    case True
    with 2 have "m_next_table it < length (m_tables it)" by simp
    from activate_next_table_weight [OF this, of p] 2 True w r show ?thesis by simp
  next
    case False
    with 2 w r show ?thesis by simp
  qed
qed

declare iterator_next.simps [simp del]

text \<open>
  The caller's loop: \<open>n\<close> calls of \<^verbatim>\<open>next\<close> one after the other on the same iterator and
  the same sink.
\<close>

fun iterator_nexts :: "Partitioner \<Rightarrow> nat \<Rightarrow> iterator \<Rightarrow> iterator \<times> callback list" where
  "iterator_nexts p 0 it = (it, [])"
| "iterator_nexts p (Suc n) it =
     (let r = iterator_next p it;
          rs = iterator_nexts p n (fst (snd r))
      in (fst rs, snd (snd r) @ snd rs))"

section \<open>Properties of the variable-length integer decoders\<close>

lemmas vint_eval =
  read_unsigned_vint_def new_buffer_def spec_encode_unsigned_vint_def spec_extra_bytes_def
  spec_low_bytes_def read_bytes_def count_extra_bytes.simps

text \<open>
  Eight of the nine sampled values survive the round trip through an uncompressed
  buffer, and all nine through a compressed one, where an empty read that follows a
  successful one returns a non-null pointer.
\<close>

lemma read_unsigned_vint_roundtrip_uncompressed:
  "list_all (\<lambda>v. fst (read_unsigned_vint
       (new_buffer UncompressedBuffer (spec_encode_unsigned_vint v))) = v)
     [0, 126, 128, 16383, 16384, 2 ^ 56 - 1, 2 ^ 56, 2 ^ 63 - 1]"
  by (simp add: vint_eval)

lemma read_unsigned_vint_roundtrip_compressed:
  "list_all (\<lambda>v. fst (read_unsigned_vint
       (new_buffer CompressedBuffer (spec_encode_unsigned_vint v))) = v)
     [0, 126, 127, 128, 16383, 16384, 2 ^ 56 - 1, 2 ^ 56, 2 ^ 63 - 1]"
  by (simp add: vint_eval)

text \<open>
  Claim C5 (varint round trip on the sampled set). The value 127 is encoded as the single
  byte \<open>0x7f\<close>. \<^verbatim>\<open>read_unsigned_vint\<close> returns the first byte at once only when it is
  below \<open>0x7f\<close>; for \<open>0x7f\<close> it finds no leading 1-bit and asks \<^verbatim>\<open>read_bytes\<close> for 0
  extra bytes. On an \<^verbatim>\<open>UncompressedBuffer\<close> that read returns null and sets the end-of-file
  flag, so the decoder returns 0 where the round trip requires 127.
\<close>

theorem read_unsigned_vint_127_uncompressed:
  "read_unsigned_vint (new_buffer UncompressedBuffer (spec_encode_unsigned_vint 127)) =
     (0, \<lparr>buffer_class = UncompressedBuffer, content = [0x7f], offset = 1, iseof = True,
          buffer_null = True\<rparr>)"
  by (simp add: vint_eval)

text \<open>
  \<^verbatim>\<open>read_vint\<close> applies to the unsigned value the transform that the writer applied to the
  signed one, not its inverse.
\<close>

lemma read_vint_is_zigzag_of_unsigned:
  "read_vint b = (spec_zigzag (fst (read_unsigned_vint b)), snd (read_unsigned_vint b))"
  by (simp add: read_vint_def spec_zigzag_def split: prod.splits)

text \<open>
  Claim C6 (\<^verbatim>\<open>read_vint\<close> decodes a zigzag signed varint). For \<open>v = 1\<close> the zigzag
  transform is 2, written as the single byte \<open>0x02\<close>; \<^verbatim>\<open>read_vint\<close> reads 2 and returns
  \<open>(2 << 1) ^ (2 >> 63) = 4\<close>, not 1.
\<close>

theorem read_vint_of_zigzag_one:
  "spec_encode_unsigned_vint (spec_zigzag 1) = [0x02] \<and>
   fst (read_vint (new_buffer UncompressedBuffer (spec_encode_unsigned_vint (spec_zigzag 1)))) = 4"
  by (simp add: vint_eval read_vint_def spec_zigzag_def)

section \<open>Properties of the reader's state machine\<close>

lemmas buffer_eval =
  read_string_def read_short_def read_int_def read_longlong_def read_byte_def read_bytes_def
  read_data_def skip_data_def skip_bytes_def seek_def new_buffer_def be_value_def
  size_t_of_sint_def

lemmas OldSStable_eval =
  OldSStable_read_row_def OldSStable_read_column_def OldSStable_read_column_data_def
  new_OldSStable_def new_ColumnInfo_def clear_flags_def VERSION_JA_def VERSION_D_def
  DELETION_MASK_def EXPIRATION_MASK_def COUNTER_MASK_def RANGE_TOMBSTONE_MASK_def
  strip_path.simps

text \<open>
  From version JA on, the end of a partition is an empty column name, and the branch that
  reads it parks the machine at \<open>READ_ROW\<close> before it returns false.
\<close>

lemma OldSStable_read_column_false_from_JA:
  assumes "VERSION_JA \<le> version (config t)"
      and "OldSStable_read_column t b = Inr (False, t', b')"
  shows "fsm t' = READ_ROW"
  using assms
  by (auto simp: OldSStable_read_column_def Let_def split: if_splits prod.splits option.splits)

text \<open>
  Before version JA a partition ends when the column count reaches zero. That branch
  returns false without touching the machine, which stays at \<open>READ_COLUMN\<close>: the
  assertion at the head of the next \<^verbatim>\<open>read_row\<close> fails, whatever the buffer holds.
\<close>

lemma OldSStable_read_column_false_before_JA:
  assumes "version (config t) < VERSION_JA" and "remaining_columns t = 0" and "fsm t \<noteq> READ_ROW"
  shows "\<exists>t' b'. OldSStable_read_column t b = Inr (False, t', b') \<and> fsm t' = READ_COLUMN \<and>
           OldSStable_read_row p t' b'' = Inl AssertionFailed"
  using assms
  by (cases "fsm t")
     (auto simp: OldSStable_read_column_def OldSStable_read_row_def Let_def clear_flags_def
           split: prod.splits)

text \<open>
  A data file of version \<^verbatim>\<open>ic\<close> (number 210) with one partition: key \<^verbatim>\<open>k\<close>, the 8-byte row
  size, the local deletion time, \<^verbatim>\<open>marked_for_deletion = STILL_ACTIVE\<close>, a column count of
  1, and the column \<^verbatim>\<open>c\<close> with flags 0, timestamp 10 and the value \<^verbatim>\<open>v\<close>.
\<close>

definition ic_one_column :: bytes where
  "ic_one_column =
     [0, 1, 0x6b] @ [0, 0, 0, 0, 0, 0, 0, 0x20] @ [0x7f, 0xff, 0xff, 0xff]
     @ [0x80, 0, 0, 0, 0, 0, 0, 0] @ [0, 0, 0, 1]
     @ [0, 1, 0x63] @ [0] @ [0, 0, 0, 0, 0, 0, 0, 0x0a] @ [0, 0, 0, 1, 0x76]"

definition ic_reader :: OldSStable where
  "ic_reader =
     new_OldSStable
       \<lparr>version = 210, data_file = Some ic_one_column, index_file = None, summary_file = None\<rparr>
       (replicate 16 0)"

text \<open>
  Claim C7 (\<^verbatim>\<open>read_column\<close> returning false leaves the machine in \<open>READ_ROW\<close>, so the
  assertion of the next \<^verbatim>\<open>read_row\<close> holds). On the file above the merge reads the
  partition header and its column, then the column's value, then asks for the next
  column: \<^verbatim>\<open>read_column\<close> returns false with the machine at \<open>READ_COLUMN\<close>, and the
  \<^verbatim>\<open>read_row\<close> that the merge calls next fails its assertion.
\<close>

theorem OldSStable_read_column_leaves_READ_COLUMN:
  "(case OldSStable_read_row None ic_reader (new_buffer CompressedBuffer ic_one_column) of
      Inr (eof, t1, b1) \<Rightarrow>
        \<not> eof \<and> name (next_column_info t1) = [0x63] \<and>
        (case OldSStable_read_column_data t1 b1 of
           Inr (d, t2, b2) \<Rightarrow>
             d = Some [0x76] \<and>
             (case OldSStable_read_column t2 b2 of
                Inr (another, t3, b3) \<Rightarrow>
                  \<not> another \<and> fsm t3 = READ_COLUMN \<and>
                  OldSStable_read_row None t3 b3 = Inl AssertionFailed
              | Inl e \<Rightarrow> False)
         | Inl e \<Rightarrow> False)
    | Inl e \<Rightarrow> False)"
  by (simp add: ic_reader_def ic_one_column_def buffer_eval OldSStable_eval Let_def)

section \<open>Duplicated readers\<close>

lemma outcome_simps [simp]:
  "outcome (Inl e) = Inl e"
  "outcome (Inr (v, r, s)) = Inr (v, reader_state r s)"
  by (simp_all add: outcome_def)

text \<open>
  A call depends on the reader's fields and on the buffer it points to, not on the
  address of the buffer nor on the rest of the store.
\<close>

lemma on_data_buffer_state:
  assumes "reader_state r s = reader_state r2 s2"
  shows "outcome (on_data_buffer method r s) = outcome (on_data_buffer method r2 s2)"
  using assms
  by (auto simp: on_data_buffer_def reader_state_def split: option.splits if_splits sum.splits)

lemma outcome_case_sum:
  "outcome (case x of Inl e \<Rightarrow> Inl e | Inr (v, r', s') \<Rightarrow> Inr (f v, r', s')) =
   (case outcome x of Inl e \<Rightarrow> Inl e | Inr (v, st) \<Rightarrow> Inr (f v, st))"
  by (auto simp: outcome_def split: sum.splits)

lemma call_reader_state:
  assumes "reader_state r s = reader_state r2 s2"
  shows "outcome (call_reader p c r s) = outcome (call_reader p c r2 s2)"
proof (cases c)
  case Call_open
  then show ?thesis using assms
    by (simp add: call_reader_def SStable_open_def reader_state_def Let_def)
next
  case Call_close
  then show ?thesis using assms
    by (simp add: call_reader_def SStable_close_def reader_state_def)
next
  case Call_read_row
  then show ?thesis using on_data_buffer_state [OF assms, of "OldSStable_read_row p"]
    by (simp add: call_reader_def outcome_case_sum)
next
  case Call_read_column
  then show ?thesis using on_data_buffer_state [OF assms, of "OldSStable_read_column"]
    by (simp add: call_reader_def outcome_case_sum)
next
  case Call_read_column_data
  then show ?thesis using on_data_buffer_state [OF assms, of "OldSStable_read_column_data"]
    by (simp add: call_reader_def outcome_case_sum)
qed

lemma call_sequence_state:
  "reader_state r s = reader_state r2 s2 \<Longrightarrow>
   outcome (call_sequence p cs r s) = outcome (call_sequence p cs r2 s2)"
proof (induction cs arbitrary: r s r2 s2)
  case Nil
  then show ?case by simp
next
  case (Cons c cs)
  note step = call_reader_state [OF Cons.prems, of p c]
  show ?case
  proof (cases "call_reader p c r s")
    case (Inl e)
    with step have "call_reader p c r2 s2 = Inl e"
      by (cases "call_reader p c r2 s2") (auto simp: outcome_def)
    with Inl show ?thesis by simp
  next
    case (Inr x)
    obtain ob r' s' where x: "x = (ob, r', s')" by (cases x)
    with Inr step obtain r2' s2' where c2: "call_reader p c r2 s2 = Inr (ob, r2', s2')"
      and st: "reader_state r' s' = reader_state r2' s2'"
      by (cases "call_reader p c r2 s2") (auto simp: outcome_def)
    from Cons.IH [OF st] show ?thesis using Inr x c2
      by (cases "call_sequence p cs r' s'"; cases "call_sequence p cs r2' s2'")
         (auto simp: outcome_def)
  qed
qed

text \<open>
  A reader that is closed, or whose buffer was created when the store already had \<open>n\<close>
  buffers, leaves the first \<open>n\<close> buffers as they are.
\<close>

definition created_after :: "nat \<Rightarrow> Reader \<Rightarrow> bool" where
  "created_after n r = (case data_buffer r of None \<Rightarrow> True | Some a \<Rightarrow> n \<le> a)"

lemma call_reader_created_after:
  assumes "call_reader p c r s = Inr (ob, r', s')" and "created_after n r" and "n \<le> length s"
  shows "created_after n r' \<and> n \<le> length s' \<and> take n s' = take n s"
  using assms
  by (cases c)
     (auto simp: call_reader_def SStable_open_def SStable_close_def on_data_buffer_def
                 created_after_def Let_def
           split: sum.splits option.splits if_splits)

lemma call_sequence_created_after:
  "call_sequence p cs r s = Inr (obs, r', s') \<Longrightarrow> created_after n r \<Longrightarrow> n \<le> length s \<Longrightarrow>
   take n s' = take n s"
proof (induction cs arbitrary: r s obs)
  case Nil
  then show ?case by simp
next
  case (Cons c cs)
  from Cons.prems(1) obtain ob r1 s1 obs1 where
    c1: "call_reader p c r s = Inr (ob, r1, s1)"
    and c2: "call_sequence p cs r1 s1 = Inr (obs1, r', s')"
    by (auto split: sum.splits)
  from call_reader_created_after [OF c1 Cons.prems(2,3)] Cons.IH [OF c2] show ?case by simp
qed

text \<open>
  Claim C9, as amended. The copy constructor of the iterator duplicates each reader, and
  \<^verbatim>\<open>duplicate\<close> copies the reader's fields and its shared pointer, not the buffer. When
  the reader is closed at the time of the copy (as every reader is when \<^verbatim>\<open>begin\<close> or
  \<^verbatim>\<open>find\<close> returns), the duplicate opens a buffer of its own: whatever sequence of calls
  is made on the duplicate, every buffer that existed stays as it was, and every sequence
  of calls made on the original afterwards returns what it would have returned, and
  leaves the original's fields and buffer as it would have left them, without the
  duplicate. As \<^verbatim>\<open>duplicate\<close> returns an equal reader, the same holds with the two
  exchanged.
\<close>

theorem duplicate_of_closed_reader_independent:
  assumes "data_buffer r = None"
      and "call_sequence p calls_d (duplicate r) s = Inr (obs, d', s')"
  shows "take (length s) s' = s \<and>
         after_duplicate p calls_d calls_t r s = outcome (call_sequence p calls_t r s)"
proof -
  have "created_after (length s) (duplicate r)"
    using assms(1) by (simp add: created_after_def duplicate_def)
  from call_sequence_created_after [OF assms(2) this] have 1: "take (length s) s' = s" by simp
  have "reader_state r s' = reader_state r s" using assms(1) by (simp add: reader_state_def)
  from call_sequence_state [OF this] assms(2) 1 show ?thesis
    by (simp add: after_duplicate_def)
qed

text \<open>
  A data file of version \<^verbatim>\<open>ja\<close> (number 234) with the two partitions \<^verbatim>\<open>a\<close> and \<^verbatim>\<open>b\<close>, each
  with no deletion and no column (the empty name ends the partition), and a reader over
  it, closed and then opened in an empty store.
\<close>

definition ja_two_partitions :: bytes where
  "ja_two_partitions =
     [0, 1, 0x61] @ [0x7f, 0xff, 0xff, 0xff] @ [0x80, 0, 0, 0, 0, 0, 0, 0] @ [0, 0]
     @ [0, 1, 0x62] @ [0x7f, 0xff, 0xff, 0xff] @ [0x80, 0, 0, 0, 0, 0, 0, 0] @ [0, 0]"

definition ja_reader :: Reader where
  "ja_reader =
     \<lparr>data_buffer = None,
      members = new_OldSStable
        \<lparr>version = 234, data_file = Some ja_two_partitions, index_file = None,
         summary_file = None\<rparr> (replicate 16 0)\<rparr>"

definition ja_opened :: Reader where
  "ja_opened = fst (snd (SStable_open ja_reader []))"

definition ja_store :: store where
  "ja_store = snd (snd (SStable_open ja_reader []))"

lemmas Reader_eval =
  call_reader_def on_data_buffer_def SStable_open_def SStable_close_def duplicate_def
  reader_state_def after_duplicate_def keys_seen_def ja_reader_def ja_opened_def ja_store_def
  ja_two_partitions_def

theorem duplicate_of_closed_reader_independent_witness:
  "data_buffer ja_reader = None \<and>
   (\<exists>x. call_sequence None [Call_open, Call_read_row] (duplicate ja_reader) [] = Inr x) \<and>
   after_duplicate None [Call_open, Call_read_row] [Call_open, Call_read_row] ja_reader [] =
     outcome (call_sequence None [Call_open, Call_read_row] ja_reader []) \<and>
   keys_seen (outcome (call_sequence None [Call_open, Call_read_row] ja_reader [])) =
     Some ([Returned_bool True, Returned_bool False], [0x61])"
proof -
  have h1: "data_buffer ja_reader = None" by (simp add: ja_reader_def)
  have h2: "\<exists>x. call_sequence None [Call_open, Call_read_row] (duplicate ja_reader) [] = Inr x"
    by (simp add: Reader_eval buffer_eval OldSStable_eval Let_def)
  then obtain obs d' s' where
    h3: "call_sequence None [Call_open, Call_read_row] (duplicate ja_reader) [] = Inr (obs, d', s')"
    by (metis prod_cases3)
  have h4: "keys_seen (outcome (call_sequence None [Call_open, Call_read_row] ja_reader [])) =
     Some ([Returned_bool True, Returned_bool False], [0x61])"
    by (simp add: Reader_eval buffer_eval OldSStable_eval Let_def)
  from duplicate_of_closed_reader_independent [OF h1 h3] h1 h2 h4 show ?thesis by blast
qed

text \<open>
  Claim C9 as stated fails for a reader that is open when it is duplicated: the two share
  one buffer. After \<^verbatim>\<open>read_row\<close> on the duplicate, \<^verbatim>\<open>read_row\<close> on the original
  finds the partition \<^verbatim>\<open>b\<close>; without the call on the duplicate it finds \<^verbatim>\<open>a\<close>.
\<close>

theorem duplicate_of_open_reader_shares_buffer:
  "data_buffer ja_opened = Some 0 \<and>
   data_buffer (duplicate ja_opened) = Some 0 \<and>
   keys_seen (after_duplicate None [Call_read_row] [Call_read_row] ja_opened ja_store) =
     Some ([Returned_bool False], [0x62]) \<and>
   keys_seen (outcome (call_sequence None [Call_read_row] ja_opened ja_store)) =
     Some ([Returned_bool False], [0x61])"
  by (simp add: Reader_eval buffer_eval OldSStable_eval Let_def)

section \<open>Positioning with \<^verbatim>\<open>find\<close>\<close>

lemmas murmur_eval =
  murmur3_h1_def murmur_tail_def murmur_c1_def murmur_c2_def rotl64_def fmix_def Let_def

lemma murmur3_h1_c: "murmur3_h1 [0x63] = - 8198557465434950441"
  by (simp add: murmur_eval)

lemma murmur3_h1_a: "murmur3_h1 [0x61] = - 8839064797231613815"
  by (simp add: murmur_eval)

lemma murmur3_h1_empty: "murmur3_h1 [] = 0"
  by (simp add: murmur_eval)

definition zero_token :: Token where
  "zero_token = [0, 0, 0, 0, 0, 0, 0, 0, 0, 0, 0, 0, 0, 0, 0, 0]"

definition token_c :: Token where
  "token_c = [0xd7, 0x74, 0x1f, 0x4a, 0x6c, 0xdf, 0x38, 0x8e, 0, 0, 0, 0, 0, 0, 0, 0]"

lemma murmur3_token_c: "murmur3_assign_token zero_token [0x63] = token_c"
  by (simp add: murmur3_assign_token_def murmur3_h1_c le_bytes_def zero_token_def token_c_def)

text \<open>
  Under the Murmur3 partitioner the key \<^verbatim>\<open>c\<close> comes after the key \<^verbatim>\<open>a\<close> and before the empty
  key, whose token is 0.
\<close>

lemma murmur3_compare_c_a:
  "murmur3_compare_token token_c [0x63] (murmur3_assign_token tk [0x61]) [0x61] = 1"
  by (simp add: murmur3_compare_token_def murmur3_assign_token_def murmur3_h1_a le_bytes_def
        le_value_def token_c_def word_sless_alt)

lemma murmur3_compare_c_empty:
  "murmur3_compare_token token_c [0x63] (murmur3_assign_token tk []) [] = - 1"
  by (simp add: murmur3_compare_token_def murmur3_assign_token_def murmur3_h1_empty le_bytes_def
        le_value_def token_c_def word_sless_alt)

text \<open>
  A file set of version \<^verbatim>\<open>jb\<close> (number 235) with the single partition \<^verbatim>\<open>a\<close>: the data file,
  the index file with its one entry (key \<^verbatim>\<open>a\<close>, position 0, an empty promoted index), and
  no summary file.
\<close>

definition jb_only_a :: TableConfig where
  "jb_only_a =
     \<lparr>version = 235,
      data_file = Some ([0, 1, 0x61] @ [0x7f, 0xff, 0xff, 0xff] @ [0x80, 0, 0, 0, 0, 0, 0, 0]
                        @ [0, 0]),
      index_file = Some ([0, 1, 0x61] @ [0, 0, 0, 0, 0, 0, 0, 0] @ [0, 0, 0, 0]),
      summary_file = None\<rparr>"

text \<open>
  The reader that \<^verbatim>\<open>find\<close> keeps for that file when asked for the key \<^verbatim>\<open>c\<close>: an empty pending
  key with the token of the empty key, and start offset 0.
\<close>

definition misplaced_reader :: Reader where
  "misplaced_reader =
     \<lparr>data_buffer = None,
      members = (new_OldSStable jb_only_a zero_token)
        \<lparr>next_token_value := zero_token, next_key_value := [], start_offset := 0\<rparr>\<rparr>"

lemma init_at_key_past_the_end:
  "init_at_key Murmer3Partitioner token_c [0x63] zero_token (new_OldSStable jb_only_a zero_token) =
     Some (Inr (True, members misplaced_reader))"
  apply (simp add: init_at_key_def find_partition_in_summary_def jb_only_a_def new_OldSStable_def
      new_ColumnInfo_def misplaced_reader_def)
  apply (subst index_scan.simps)
  apply (simp add: buffer_eval VERSION_MA_def Murmer3Partitioner_def murmur3_compare_c_a Let_def)
  apply (subst index_scan.simps)
  apply (simp add: buffer_eval VERSION_MA_def Murmer3Partitioner_def murmur3_compare_c_empty Let_def)
  apply (simp add: murmur3_assign_token_def murmur3_h1_a murmur3_h1_empty le_bytes_def
      zero_token_def)
  apply blast
  done

text \<open>
  Claim C8 (\<^verbatim>\<open>find(K)\<close> yields the suffix of the output of \<^verbatim>\<open>begin()\<close> from the first
  partition that is at least \<open>K\<close>). With the Murmur3 partitioner, the one file above and
  \<open>K =\<close> \<^verbatim>\<open>c\<close>, no partition is at least \<open>K\<close>, so the suffix is empty. The loop of
  \<^verbatim>\<open>init_at_key\<close> tests the end of the index file only before it reads: after the last
  entry it reads past the end, gets an empty key and position 0, finds that \<open>K\<close> is below
  the empty key (token 0), and returns true. \<^verbatim>\<open>find\<close> keeps the reader, and when the
  iterator activates it (\<^verbatim>\<open>open\<close>, \<^verbatim>\<open>read_row\<close>) it starts at the head of the data file,
  at the partition \<^verbatim>\<open>a\<close>, which is below \<open>K\<close>.
\<close>

theorem find_keeps_file_without_later_key:
  "CassandraParser_find Murmer3Partitioner [jb_only_a] [0x63] zero_token =
     Some (Inr [misplaced_reader]) \<and>
   start_offset (members misplaced_reader) = 0 \<and>
   keys_seen (outcome (call_sequence (Some Murmer3Partitioner) [Call_open, Call_read_row]
                         misplaced_reader [])) =
     Some ([Returned_bool True, Returned_bool False], [0x61]) \<and>
   compare_token Murmer3Partitioner token_c [0x63]
     (assign_token Murmer3Partitioner zero_token [0x61]) [0x61] = 1"
proof -
  have 1: "CassandraParser_find Murmer3Partitioner [jb_only_a] [0x63] zero_token =
     Some (Inr [misplaced_reader])"
    by (simp add: CassandraParser_find_def Murmer3Partitioner_def murmur3_token_c std_sort_def
          init_at_key_past_the_end [unfolded Murmer3Partitioner_def] misplaced_reader_def)
  have 2: "start_offset (members misplaced_reader) = 0"
    by (simp add: misplaced_reader_def)
  have 3: "keys_seen (outcome (call_sequence (Some Murmer3Partitioner) [Call_open, Call_read_row]
                         misplaced_reader [])) =
     Some ([Returned_bool True, Returned_bool False], [0x61])"
    by (simp add: Reader_eval buffer_eval OldSStable_eval Let_def misplaced_reader_def
          jb_only_a_def Murmer3Partitioner_def)
  have 4: "compare_token Murmer3Partitioner token_c [0x63]
     (assign_token Murmer3Partitioner zero_token [0x61]) [0x61] = 1"
    by (simp add: Murmer3Partitioner_def murmur3_compare_c_a)
  from 1 2 3 4 show ?thesis by blast
qed

section \<open>The merge: which cell is delivered\<close>

subsection \<open>Files for the examples\<close>

text \<open>
  A cell with a value, the cell of a range tombstone (its end key is in \<^verbatim>\<open>data\<close>), and a
  file that opens and holds one partition. The examples use the byte-order partitioner,
  whose token is empty.
\<close>

definition live_cell :: "bytes \<Rightarrow> bytes \<Rightarrow> 64 word \<Rightarrow> Cell" where
  "live_cell n v t = \<lparr>cell_info = new_ColumnInfo\<lparr>name := n, ts := t\<rparr>, cell_value = v\<rparr>"


definition one_partition :: "bytes \<Rightarrow> 64 word \<Rightarrow> Cell list \<Rightarrow> bool \<times> Partition list" where
  "one_partition k d cs = (True, [\<lparr>partition_key = k, partition_deletion = d, partition_cells = cs\<rparr>])"

subsection \<open>\<^verbatim>\<open>choose_latest_match\<close>\<close>

text \<open>The timestamp of the current column of a reader, as the signed number it is.\<close>

definition timestamp_of :: "SStable list \<Rightarrow> nat \<Rightarrow> int" where
  "timestamp_of tables i = sint (ts (next_column (tables ! i)))"

definition latest_scan :: "SStable list \<Rightarrow> nat \<times> 64 word \<Rightarrow> nat list \<Rightarrow> nat \<times> 64 word" where
  "latest_scan tables acc rest =
     foldl (\<lambda>(lastTs_index, lastTs) this_index.
              (let thisTs = ts (next_column (tables ! this_index))
               in if lastTs <s thisTs then (this_index, thisTs) else (lastTs_index, lastTs)))
       acc rest"

lemma choose_latest_match_scan:
  "choose_latest_match tables (x # xs) = fst (latest_scan tables (x, ts (next_column (tables ! x))) xs)"
  by (simp add: choose_latest_match_def latest_scan_def)

lemma latest_scan_snoc:
  "latest_scan tables acc (xs @ [y]) =
     (if snd (latest_scan tables acc xs) <s ts (next_column (tables ! y))
      then (y, ts (next_column (tables ! y))) else latest_scan tables acc xs)"
  by (simp add: latest_scan_def Let_def split: prod.splits)

lemma latest_scan_first_maximal:
  "\<exists>j < length (x # xs).
     latest_scan tables (x, ts (next_column (tables ! x))) xs =
       ((x # xs) ! j, ts (next_column (tables ! ((x # xs) ! j)))) \<and>
     (\<forall>i < length (x # xs). timestamp_of tables ((x # xs) ! i) \<le> timestamp_of tables ((x # xs) ! j)) \<and>
     (\<forall>i < j. timestamp_of tables ((x # xs) ! i) < timestamp_of tables ((x # xs) ! j))"
proof (induction xs rule: rev_induct)
  case Nil
  show ?case by (simp add: latest_scan_def)
next
  case (snoc y xs)
  then obtain j where j: "j < length (x # xs)"
    and eq: "latest_scan tables (x, ts (next_column (tables ! x))) xs =
       ((x # xs) ! j, ts (next_column (tables ! ((x # xs) ! j))))"
    and mx: "\<forall>i < length (x # xs). timestamp_of tables ((x # xs) ! i) \<le> timestamp_of tables ((x # xs) ! j)"
    and fst: "\<forall>i < j. timestamp_of tables ((x # xs) ! i) < timestamp_of tables ((x # xs) ! j)"
    by blast
  let ?l = "x # xs @ [y]"
  have pre: "\<And>i. i < length (x # xs) \<Longrightarrow> ?l ! i = (x # xs) ! i"
    by (metis append_Cons nth_append)
  have lst: "?l ! length (x # xs) = y"
    by (metis append_Cons nth_append_length)
  show ?case
  proof (cases "timestamp_of tables ((x # xs) ! j) < timestamp_of tables y")
    case True
    then have "latest_scan tables (x, ts (next_column (tables ! x))) (xs @ [y]) =
                 (y, ts (next_column (tables ! y)))"
      using eq by (simp add: latest_scan_snoc timestamp_of_def word_sless_alt)
    moreover have "\<forall>i < length ?l. timestamp_of tables (?l ! i) \<le> timestamp_of tables y"
    proof (intro allI impI)
      fix i assume "i < length ?l"
      then consider "i < length (x # xs)" | "i = length (x # xs)" by fastforce
      then show "timestamp_of tables (?l ! i) \<le> timestamp_of tables y"
      proof cases
        case 1
        with mx True pre [OF 1] show ?thesis by force
      next
        case 2
        with lst show ?thesis by simp
      qed
    qed
    moreover have "\<forall>i < length (x # xs). timestamp_of tables (?l ! i) < timestamp_of tables y"
      using mx True pre by force
    ultimately show ?thesis
      using lst by (intro exI [of _ "length (x # xs)"]) simp
  next
    case False
    then have "latest_scan tables (x, ts (next_column (tables ! x))) (xs @ [y]) =
                 ((x # xs) ! j, ts (next_column (tables ! ((x # xs) ! j))))"
      using eq by (simp add: latest_scan_snoc timestamp_of_def word_sless_alt)
    moreover have "\<forall>i < length ?l. timestamp_of tables (?l ! i) \<le> timestamp_of tables ((x # xs) ! j)"
    proof (intro allI impI)
      fix i assume "i < length ?l"
      then consider "i < length (x # xs)" | "i = length (x # xs)" by fastforce
      then show "timestamp_of tables (?l ! i) \<le> timestamp_of tables ((x # xs) ! j)"
      proof cases
        case 1
        with mx pre [OF 1] show ?thesis by force
      next
        case 2
        with lst False show ?thesis by simp
      qed
    qed
    moreover have "\<forall>i < j. timestamp_of tables (?l ! i) < timestamp_of tables ((x # xs) ! j)"
      using fst j pre by force
    ultimately show ?thesis
      using j pre [OF j] by (intro exI [of _ j]) simp
  qed
qed


text \<open>
  Three files with the partition \<^verbatim>\<open>k\<close>: in the first it holds the column \<^verbatim>\<open>a\<close>, in the
  second and in the third the column \<^verbatim>\<open>b\<close> with the same timestamp 5 and the values \<^verbatim>\<open>1\<close>
  and \<^verbatim>\<open>2\<close>. The first file starts with a partition \<^verbatim>\<open>i\<close> and the second with a partition
  \<^verbatim>\<open>j\<close>, so that the first keys of the three files differ and every sort puts the
  readers in the order of the files.
\<close>

definition live_partition :: "bytes \<Rightarrow> Cell list \<Rightarrow> Partition" where
  "live_partition k cs =
     \<lparr>partition_key = k, partition_deletion = STILL_ACTIVE, partition_cells = cs\<rparr>"

definition tie_files :: "(bool \<times> Partition list) list" where
  "tie_files =
     [(True, [live_partition [0x69] [live_cell [0x78] [0x2d] 5],
              live_partition [0x6b] [live_cell [0x61] [0x30] 1]]),
      (True, [live_partition [0x6a] [live_cell [0x78] [0x2d] 5],
              live_partition [0x6b] [live_cell [0x62] [0x31] 5]]),
      (True, [live_partition [0x6b] [live_cell [0x62] [0x32] 5]])]"

definition tie_iterator :: iterator where
  "tie_iterator = CassandraParser_begin ByteOrderPartitioner [] tie_files"

text \<open>The readers after the partitions \<^verbatim>\<open>i\<close> and \<^verbatim>\<open>j\<close> have been delivered.\<close>

definition tie_tables :: "SStable list" where
  "tie_tables = m_tables (fst (iterator_nexts ByteOrderPartitioner 2 tie_iterator))"

text \<open>
  Claim C10, as amended. Among the readers that hold the current column,
  \<^verbatim>\<open>choose_latest_match\<close> returns the first one in the order of \<^verbatim>\<open>matched_columns\<close> whose
  timestamp is the greatest: no reader has a greater timestamp, and every reader before
  it in \<^verbatim>\<open>matched_columns\<close> has a smaller one. \<^verbatim>\<open>matched_columns\<close> follows the order of the
  array \<^verbatim>\<open>matches\<close>, which is the order of the table indices only until a reader that has
  finished its partition is replaced in \<^verbatim>\<open>matches\<close> by the last entry.
\<close>

theorem choose_latest_match_first_maximal:
  assumes "matched_columns \<noteq> []"
  shows "\<exists>j < length matched_columns.
           choose_latest_match tables matched_columns = matched_columns ! j \<and>
           (\<forall>i < length matched_columns.
              timestamp_of tables (matched_columns ! i) \<le> timestamp_of tables (matched_columns ! j)) \<and>
           (\<forall>i < j. timestamp_of tables (matched_columns ! i) < timestamp_of tables (matched_columns ! j))"
proof -
  obtain x xs where mc: "matched_columns = x # xs" using assms by (cases matched_columns) auto
  from latest_scan_first_maximal [of x xs tables] obtain j where
    j: "j < length (x # xs)"
    and eq: "latest_scan tables (x, ts (next_column (tables ! x))) xs =
       ((x # xs) ! j, ts (next_column (tables ! ((x # xs) ! j))))"
    and mx: "\<forall>i < length (x # xs). timestamp_of tables ((x # xs) ! i) \<le> timestamp_of tables ((x # xs) ! j)"
    and fst: "\<forall>i < j. timestamp_of tables ((x # xs) ! i) < timestamp_of tables ((x # xs) ! j)"
    by blast
  have "choose_latest_match tables (x # xs) = (x # xs) ! j"
    unfolding choose_latest_match_scan eq by simp
  with j mx fst show ?thesis
    unfolding mc by blast
qed

text \<open>
  With the column matches in the order 2, 1 (the first reader has left the partition
  \<^verbatim>\<open>k\<close>), the tie between the readers 1 and 2 goes to the reader 2.
\<close>

theorem choose_latest_match_first_maximal_witness:
  "[2, 1] \<noteq> ([] :: nat list) \<and>
   choose_latest_match (tie_tables) [2, 1] = 2 \<and>
   timestamp_of (tie_tables) 1 = 5 \<and> timestamp_of (tie_tables) 2 = 5"
proof -
  have t: "timestamp_of (tie_tables) 1 = 5" "timestamp_of (tie_tables) 2 = 5"
    by code_simp+
  have ne: "[2, 1] \<noteq> ([] :: nat list)" by simp
  from choose_latest_match_first_maximal [OF ne, of "tie_tables"]
  obtain j where j: "j < length [2 :: nat, 1]"
    "choose_latest_match (tie_tables) [2, 1] = [2, 1] ! j"
    "\<forall>i < j. timestamp_of (tie_tables) ([2, 1] ! i) <
              timestamp_of (tie_tables) ([2, 1] ! j)"
    by blast
  have "j = 0"
  proof (rule ccontr)
    assume "j \<noteq> 0"
    with j(1) have j1: "j = 1" by simp
    from j(3) have "timestamp_of (tie_tables) ([2, 1] ! 0) <
                    timestamp_of (tie_tables) ([2, 1] ! 1)"
      unfolding j1 by simp
    with t show False by simp
  qed
  with j(2) t show ?thesis by simp
qed

text \<open>
  Claim C10 as stated (a tie goes to the lowest table index) fails on the three files.
  The sorted table list has the readers in the order of the files. In the partition
  \<^verbatim>\<open>k\<close> the row matches are 0, 1, 2. After the column \<^verbatim>\<open>a\<close> the reader 0 is exhausted, and
  its place in \<^verbatim>\<open>matches\<close> is taken by the last entry, the reader 2; the scan for the
  column \<^verbatim>\<open>b\<close> then meets the reader 2 before the reader 1, and the value delivered is
  \<^verbatim>\<open>2\<close>, that of the table with the higher index.
\<close>

theorem tie_goes_to_last_reader_moved_forward:
  "map from_start_offset (m_tables tie_iterator) = map snd tie_files \<and>
   snd (iterator_nexts ByteOrderPartitioner 3 tie_iterator) =
     [new_row [0x69], new_column [0x78] [0x2d] 5,
      new_row [0x6a], new_column [0x78] [0x2d] 5,
      new_row [0x6b], new_column [0x61] [0x30] 1, new_column [0x62] [0x32] 5]"
  by code_simp

subsection \<open>Two versions of a cell\<close>


text \<open>
  Two files with the partition \<^verbatim>\<open>k\<close> and the column \<^verbatim>\<open>c\<close>: the value \<^verbatim>\<open>o\<close> at time 5 and
  the value \<^verbatim>\<open>n\<close> at time 7; and the iterator over them when \<^verbatim>\<open>next_record\<close> has found
  the row matches.
\<close>

definition newest_files :: "(bool \<times> Partition list) list" where
  "newest_files =
     [one_partition [0x6b] STILL_ACTIVE [live_cell [0x63] [0x6f] 5],
      one_partition [0x6b] STILL_ACTIVE [live_cell [0x63] [0x6e] 7]]"


lemma newest_files_merged:
  "snd (snd (iterator_next ByteOrderPartitioner (CassandraParser_begin ByteOrderPartitioner [] newest_files))) =
     [new_row [0x6b], new_column [0x63] [0x6e] 7]"
  by code_simp


subsection \<open>Two files with one cell each\<close>

text \<open>A reader that shows the only cell of the only partition of its file.\<close>

definition at_only_cell :: "bytes \<Rightarrow> Cell \<Rightarrow> Token \<Rightarrow> SStable" where
  "at_only_cell k c tk =
     \<lparr>next_key = k, next_token = tk, marked_for_deletion = STILL_ACTIVE,
      next_column = cell_info c, column_data = cell_value c, columns_left = [],
      partitions_left = [],
      from_start_offset = [\<lparr>partition_key = k, partition_deletion = STILL_ACTIVE,
                             partition_cells = [c]\<rparr>],
      can_open = True\<rparr>"

lemma init_only_cell:
  "SStable_init p (new_SStable tok (one_partition k STILL_ACTIVE [c])) =
     (True, at_only_cell k c (assign_token p tok k))"
  by (simp add: SStable_init_def new_SStable_def one_partition_def table_open_def table_close_def
        read_row_def read_column_def at_only_cell_def)

lemma activate_only_cell:
  assumes "index < length tables" "tables ! index = at_only_cell k c tk"
  shows "activate_table p index
           \<lparr>m_next_table = nt, m_active_tables = act, m_tables = tables, m_skippedRecords = sk,
            m_cassandraReadRecords = rr, m_last_token = lt, m_last_key = lk\<rparr> =
         \<lparr>m_next_table = nt, m_active_tables = set_insert index act,
          m_tables = tables[index := at_only_cell k c (assign_token p tk k)],
          m_skippedRecords = sk, m_cassandraReadRecords = rr, m_last_token = lt, m_last_key = lk\<rparr>"
  using assms
  by (simp add: activate_table_def table_open_def read_row_def read_column_def at_only_cell_def)

lemma advance_only_cell:
  assumes "index < length tables" "tables ! index = at_only_cell k c tk"
  shows "advance_columns p (index # rest)
           \<lparr>m_next_table = nt, m_active_tables = act, m_tables = tables, m_skippedRecords = sk,
            m_cassandraReadRecords = rr, m_last_token = lt, m_last_key = lk\<rparr> matches =
         advance_columns p rest
           \<lparr>m_next_table = nt, m_active_tables = set_erase index act,
            m_tables = tables[index := (at_only_cell k c tk)
                          \<lparr>next_column := (clear_flags (cell_info c))\<lparr>name := []\<rparr>, next_key := []\<rparr>],
            m_skippedRecords = sk, m_cassandraReadRecords = rr, m_last_token = lt, m_last_key = lk\<rparr>
           (swap_remove matches index)"
  using assms
  by (simp add: read_row_def read_column_def at_only_cell_def deactivate_table_def table_close_def)

text \<open>
  The whole merge of two files that hold one partition with the same key, and in it one
  cell with the same name and different timestamps: \<^verbatim>\<open>begin\<close> and one call of \<^verbatim>\<open>next\<close>
  deliver the partition with one column, the newer one.
\<close>

lemma two_versions_merged:
  fixes p tok k n v1 t1 v2 t2
  defines "c1 \<equiv> live_cell n v1 t1" and "c2 \<equiv> live_cell n v2 t2"
  defines "tk0 \<equiv> assign_token p tok k"
  defines "tk1 \<equiv> assign_token p (assign_token p tok k) k"
  assumes same: "\<And>t t'. compare_token p (assign_token p t k) k (assign_token p t' k) k = 0"
    and named: "n \<noteq> []"
    and different: "t1 \<noteq> t2"
  shows "snd (snd (iterator_next p
           (CassandraParser_begin p tok
              [one_partition k STILL_ACTIVE [live_cell n v1 t1],
               one_partition k STILL_ACTIVE [live_cell n v2 t2]]))) =
         [new_row k, if t1 <s t2 then new_column n v2 t2 else new_column n v1 t1]"
proof -
  define it0 where "it0 =
    \<lparr>m_next_table = 0, m_active_tables = [], m_tables = [at_only_cell k c1 tk0, at_only_cell k c2 tk0],
     m_skippedRecords = 0, m_cassandraReadRecords = 0, m_last_token = tok, m_last_key = []\<rparr>"
  define it1 where "it1 =
    \<lparr>m_next_table = Suc 0, m_active_tables = [0],
     m_tables = [at_only_cell k c1 tk1, at_only_cell k c2 tk0],
     m_skippedRecords = 0, m_cassandraReadRecords = 0, m_last_token = tok, m_last_key = []\<rparr>"
  define it2 where "it2 =
    \<lparr>m_next_table = Suc (Suc 0), m_active_tables = [0, Suc 0],
     m_tables = [at_only_cell k c1 tk1, at_only_cell k c2 tk1],
     m_skippedRecords = 0, m_cassandraReadRecords = 0, m_last_token = tok, m_last_key = []\<rparr>"
  define it3 where "it3 = it2\<lparr>m_last_token := tk1, m_last_key := k\<rparr>"
  have b: "CassandraParser_begin p tok
              [one_partition k STILL_ACTIVE [live_cell n v1 t1],
               one_partition k STILL_ACTIVE [live_cell n v2 t2]] = it0"
    by (simp add: CassandraParser_begin_def initialised_tables_def init_only_cell std_sort_def
          Sorter_def at_only_cell_def same new_iterator_def it0_def c1_def c2_def tk0_def)
  have a1: "activate_table p (m_next_table it0) (it0\<lparr>m_next_table := Suc (m_next_table it0)\<rparr>) = it1"
    unfolding it0_def it1_def
    by (simp add: activate_only_cell [where k = k and c = c1 and tk = tk0] set_insert_def tk1_def tk0_def)
  have scan: "foldl (\<lambda>matches index. snd (match_table p (m_tables it1) matches index)) []
                (m_active_tables it1) = [0]"
    by (simp add: it1_def match_table_def)
  have m1: "match_table p (m_tables it1) [0] (m_next_table it1) = (True, [0, Suc 0])"
    by (simp add: it1_def match_table_def at_only_cell_def tk0_def tk1_def same)
  have a2: "activate_table p (m_next_table it1) (it1\<lparr>m_next_table := Suc (m_next_table it1)\<rparr>) = it2"
    unfolding it1_def it2_def
    by (simp add: activate_only_cell [where k = k and c = c2 and tk = tk0] set_insert_def tk1_def tk0_def)
  have o2: "open_matching_tables p it2 [0, Suc 0] = (it2, [0, Suc 0])"
    by (subst open_matching_tables.simps) (simp add: it2_def)
  have fm: "find_first_row_matches p it1 = (it2, [0, Suc 0])"
    unfolding find_first_row_matches_def scan
    by (subst open_matching_tables.simps) (simp add: m1 a2 o2, simp add: it1_def)
  have rd: "row_deletion_time (m_tables it3) [0, Suc 0] = STILL_ACTIVE"
    by (simp add: row_deletion_time_def it3_def it2_def at_only_cell_def)
  have mc: "find_first_column_matches (m_tables it3) [0, Suc 0] = [0, Suc 0]"
    by (simp add: find_first_column_matches_def it3_def it2_def at_only_cell_def c1_def c2_def
          live_cell_def strcmp_def)
  have ne: "find_first_column_matches (m_tables it3) [0, Suc 0] \<noteq> []" by (simp add: mc)
  have tm: "update_tombstones (m_tables it3) [] STILL_ACTIVE [0, Suc 0] STILL_ACTIVE n = ([], STILL_ACTIVE)"
    by (simp add: update_tombstones_def fold_range_tombstone_def it3_def it2_def at_only_cell_def
          c1_def c2_def live_cell_def new_ColumnInfo_def)
  have latest: "choose_latest_match (m_tables it3) [0, Suc 0] = (if t1 <s t2 then Suc 0 else 0)"
    by (simp add: choose_latest_match_def it3_def it2_def at_only_cell_def c1_def c2_def
          live_cell_def Let_def)
  have f0: "m_tables it3 ! 0 = at_only_cell k c1 tk1" and f1: "m_tables it3 ! Suc 0 = at_only_cell k c2 tk1"
    by (simp_all add: it3_def it2_def)
  have nmeq: "name (next_column (m_tables it3 ! 0)) = n"
    by (simp add: f0 at_only_cell_def c1_def live_cell_def)
  obtain it4 where adv: "advance_columns p [0, Suc 0] it3 [0, Suc 0] = (it4, [])"
    unfolding it3_def it2_def
    by (simp add: advance_only_cell [where k = k and tk = tk1 and c = c1]
          advance_only_cell [where k = k and tk = tk1 and c = c2] swap_remove_def set_erase_def
          del: advance_columns.simps(2))
  have finished: "column_loop p STILL_ACTIVE it4 [] [] STILL_ACTIVE True sk = (it4, True, sk)" for sk
    by (subst column_loop.simps) simp
  have cl: "column_loop p STILL_ACTIVE it3 [0, Suc 0] [] STILL_ACTIVE False [new_row k] =
              (it4, True, [new_row k, if t1 <s t2 then new_column n v2 t2 else new_column n v1 t1])"
    apply (subst column_loop_unfold [OF ne])
    apply (simp only: mc list.sel nmeq tm latest adv fst_conv snd_conv)
    using named
    apply (simp add: f0 f1 finished emit_column_def at_only_cell_def c1_def c2_def live_cell_def
          new_ColumnInfo_def)
    done
  have nr: "snd (snd (next_record p it1)) =
              [new_row k, if t1 <s t2 then new_column n v2 t2 else new_column n v1 t1]"
    and nr1: "fst (next_record p it1)"
    using cl rd
    by (simp_all add: next_record_def fm Let_def it3_def it2_def at_only_cell_def)
  show ?thesis
    unfolding b
    by (subst iterator_next.simps) (simp add: a1 nr nr1 Let_def, simp add: it0_def)
qed

section \<open>Range tombstones\<close>

text \<open>
  The deletion time that \<^verbatim>\<open>update_tombstones\<close> computes again after it has erased
  entries: the latest of the partition's deletion time and the timestamps in the map.
\<close>

definition watermark :: "64 word \<Rightarrow> tombstone_map \<Rightarrow> 64 word" where
  "watermark row_deletion m = foldl (\<lambda>m e. later_time m (snd e)) row_deletion m"











definition tombstones_kept :: "64 word \<Rightarrow> tombstone_map \<times> 64 word \<Rightarrow> bool" where
  "tombstones_kept row_deletion st \<longleftrightarrow>
     sorted_wrt (<) (map fst (fst st)) \<and> snd st = watermark row_deletion (fst st)"







lemma tombstones_kept_start: "tombstones_kept row_deletion ([], row_deletion)"
  by (simp add: tombstones_kept_def watermark_def)





section \<open>Partitions and the sink\<close>

fun is_new_row :: "callback \<Rightarrow> bool" where
  "is_new_row (new_row k) = True"
| "is_new_row (new_column n d t) = False"
| "is_new_row (new_column_with_ttl n d t l e) = False"

definition counters :: "iterator \<Rightarrow> nat \<times> nat" where
  "counters it = (m_skippedRecords it, m_cassandraReadRecords it)"

lemma counters_simps [simp]:
  "counters (it\<lparr>m_tables := a\<rparr>) = counters it"
  "counters (it\<lparr>m_active_tables := b\<rparr>) = counters it"
  "counters (it\<lparr>m_next_table := c\<rparr>) = counters it"
  "counters (it\<lparr>m_last_token := d\<rparr>) = counters it"
  "counters (it\<lparr>m_last_key := e\<rparr>) = counters it"
  by (simp_all add: counters_def)

lemma deactivate_table_counters [simp]: "counters (deactivate_table index it) = counters it"
  by (simp add: deactivate_table_def)

lemma activate_table_counters [simp]: "counters (activate_table p index it) = counters it"
  by (simp add: activate_table_def split: prod.splits bool.splits)

lemma advance_columns_counters:
  "counters (fst (advance_columns p matched_columns it matches)) = counters it"
  by (induction matched_columns arbitrary: it matches)
     (simp_all split: prod.splits bool.splits)

lemma open_matching_tables_counters:
  "counters (fst (open_matching_tables p it matches)) = counters it"
proof (induction p it matches rule: open_matching_tables.induct)
  case (1 p it matches)
  show ?case
  proof (cases "m_next_table it < length (m_tables it)")
    case False
    then show ?thesis by (simp add: open_matching_tables.simps)
  next
    case inside: True
    obtain b matches' where mt: "match_table p (m_tables it) matches (m_next_table it) = (b, matches')"
      by (cases "match_table p (m_tables it) matches (m_next_table it)")
    show ?thesis
    proof (cases b)
      case True
      then have bt: "b = True" by simp
      from 1 [OF inside mt [symmetric] bt] inside mt True show ?thesis
        by (subst open_matching_tables.simps) simp
    next
      case False
      with inside mt show ?thesis by (subst open_matching_tables.simps) simp
    qed
  qed
qed

lemma find_first_row_matches_counters:
  "counters (fst (find_first_row_matches p it)) = counters it"
  by (simp add: find_first_row_matches_def open_matching_tables_counters)

lemma emit_column_not_new_row [simp]: "\<not> is_new_row (emit_column nm d c)"
  by (simp add: emit_column_def)

lemma column_loop_sink:
  "column_loop p row_deletion it matches tombstones minTime has_columns sink = (it', has_columns', sink') \<Longrightarrow>
   \<exists>cols. sink' = sink @ cols \<and> filter is_new_row cols = [] \<and>
          has_columns' = (has_columns \<or> cols \<noteq> []) \<and> counters it' = counters it"
proof (induction "tables_weight (m_tables it) + length matches"
       arbitrary: it matches tombstones minTime has_columns sink rule: less_induct)
  case less
  let ?mc = "find_first_column_matches (m_tables it) matches"
  show ?case
  proof (cases "?mc = []")
    case True
    with less.prems show ?thesis by (auto simp: column_loop.simps)
  next
    case False
    define am where "am = advance_columns p ?mc it matches"
    have am: "advance_columns p ?mc it matches = (fst am, snd am)" by (simp add: am_def)
    have ne: "matches \<noteq> []" using False by auto
    define nm where "nm = name (next_column (m_tables it ! hd ?mc))"
    define tm where "tm = update_tombstones (m_tables it) tombstones minTime matches row_deletion nm"
    define nextColumn where "nextColumn = next_column (m_tables it ! choose_latest_match (m_tables it) ?mc)"
    define live where "live \<longleftrightarrow> nm \<noteq> [] \<and> \<not> deleted nextColumn \<and>
                     (snd tm = STILL_ACTIVE \<or> snd tm <s ts nextColumn)"
    define e where "e = emit_column nm (column_data (m_tables it ! choose_latest_match (m_tables it) ?mc)) nextColumn"
    from column_loop_unfold [OF False, of p row_deletion tombstones minTime has_columns sink] less.prems
    have rec: "column_loop p row_deletion (fst am) (snd am) (fst tm) (snd tm) (has_columns \<or> live)
                 (if live then sink @ [e] else sink) = (it', has_columns', sink')"
      by (simp add: am_def nm_def tm_def nextColumn_def live_def e_def)
    have dec: "tables_weight (m_tables (fst am)) + length (snd am)
               < tables_weight (m_tables it) + length matches"
      using advance_columns_weight [OF am] False ne by simp
    from less.hyps [OF dec rec] obtain cols where
      cols: "sink' = (if live then sink @ [e] else sink) @ cols" "filter is_new_row cols = []"
        "has_columns' = ((has_columns \<or> live) \<or> cols \<noteq> [])" "counters it' = counters (fst am)"
      by blast
    have c: "counters (fst am) = counters it"
      by (simp add: am_def advance_columns_counters)
    show ?thesis
    proof (cases live)
      case True
      with cols c show ?thesis
        by (intro exI [of _ "e # cols"]) (simp add: e_def)
    next
      case False
      with cols c show ?thesis
        by (intro exI [of _ cols]) simp
    qed
  qed
qed

text \<open>
  What \<^verbatim>\<open>next_record\<close> does with a partition that it has found: one call of \<^verbatim>\<open>new_row\<close>,
  then calls for columns only; it returns false exactly when the partition has a
  deletion time and no column was delivered, and only then counts the partition as
  skipped.
\<close>

lemma next_record_sink:
  fixes p it returned it' sink
  defines "fm \<equiv> find_first_row_matches p it"
  defines "row_deletion \<equiv> row_deletion_time (m_tables (fst fm)) (snd fm)"
  assumes "next_record p it = (returned, it', sink)" and "snd fm \<noteq> []"
  shows "\<exists>cols. sink = new_row (next_key (m_tables (fst fm) ! hd (snd fm))) # cols \<and>
                filter is_new_row cols = [] \<and>
                returned = (row_deletion = STILL_ACTIVE \<or> cols \<noteq> []) \<and>
                m_cassandraReadRecords it' = Suc (m_cassandraReadRecords it) \<and>
                m_skippedRecords it' =
                  (if returned then m_skippedRecords it else Suc (m_skippedRecords it))"
proof -
  define first where "first = m_tables (fst fm) ! hd (snd fm)"
  define it1 where "it1 = (fst fm)\<lparr>m_last_token := next_token first, m_last_key := next_key first\<rparr>"
  have rd: "row_deletion = row_deletion_time (m_tables it1) (snd fm)"
    by (simp add: row_deletion_def it1_def)
  obtain it3 hc sk where
    cl: "column_loop p row_deletion it1 (snd fm) [] row_deletion False [new_row (next_key first)] = (it3, hc, sk)"
    by (cases "column_loop p row_deletion it1 (snd fm) [] row_deletion False [new_row (next_key first)]")
  from column_loop_sink [OF cl] obtain cols where
    cols: "sk = [new_row (next_key first)] @ cols" "filter is_new_row cols = []"
      "hc = (False \<or> cols \<noteq> [])" "counters it3 = counters it1"
    by blast
  have c: "counters it1 = counters it"
    by (simp add: it1_def fm_def find_first_row_matches_counters)
  have nr: "next_record p it =
     (if row_deletion \<noteq> STILL_ACTIVE \<and> \<not> hc
      then (False, it3\<lparr>m_cassandraReadRecords := Suc (m_cassandraReadRecords it3),
                       m_skippedRecords := Suc (m_skippedRecords it3)\<rparr>, sk)
      else (True, it3\<lparr>m_cassandraReadRecords := Suc (m_cassandraReadRecords it3)\<rparr>, sk))"
  proof -
    have "next_record p it =
       (let cl = column_loop p row_deletion it1 (snd fm) [] row_deletion False [new_row (next_key first)];
            it2 = (fst cl)\<lparr>m_cassandraReadRecords := Suc (m_cassandraReadRecords (fst cl))\<rparr>
        in if row_deletion \<noteq> STILL_ACTIVE \<and> \<not> fst (snd cl)
           then (False, it2\<lparr>m_skippedRecords := Suc (m_skippedRecords it2)\<rparr>, snd (snd cl))
           else (True, it2, snd (snd cl)))"
      using assms(4)
      by (simp add: next_record_def Let_def fm_def row_deletion_def it1_def first_def)
    then show ?thesis unfolding cl by (simp add: Let_def)
  qed
  from nr assms(3) cols c show ?thesis
    by (intro exI [of _ cols]) (auto simp: first_def counters_def split: if_splits)
qed

text \<open>
  \<^verbatim>\<open>next\<close>: every partition that was read has had its call of \<^verbatim>\<open>new_row\<close>, the skipped
  ones as well as the one that is returned.
\<close>

lemma iterator_next_new_row_per_record:
  "iterator_next p it = (returned, it', sink) \<Longrightarrow>
   m_cassandraReadRecords it' = m_cassandraReadRecords it + length (filter is_new_row sink) \<and>
   m_skippedRecords it' + (if returned then 1 else 0) =
     m_skippedRecords it + length (filter is_new_row sink)"
proof (induction p it arbitrary: returned it' sink rule: iterator_next.induct)
  case (1 p it)
  show ?case
  proof (cases "m_active_tables it = [] \<and> length (m_tables it) \<le> m_next_table it")
    case True
    with "1.prems" show ?thesis by (simp add: iterator_next.simps)
  next
    case False
    define it1 where "it1 = (if m_active_tables it = []
                    then activate_table p (m_next_table it) (it\<lparr>m_next_table := Suc (m_next_table it)\<rparr>)
                    else it)"
    have c1: "counters it1 = counters it" by (simp add: it1_def)
    obtain r it2 sk where nr: "next_record p it1 = (r, it2, sk)" by (cases "next_record p it1")
    have one: "m_cassandraReadRecords it2 = m_cassandraReadRecords it1 + length (filter is_new_row sk) \<and>
               m_skippedRecords it2 + (if r then 1 else 0) =
                 m_skippedRecords it1 + length (filter is_new_row sk) \<and>
               (\<not> r \<or> sk \<noteq> [])"
    proof (cases "snd (find_first_row_matches p it1) = []")
      case True
      with nr find_first_row_matches_counters [of p it1] show ?thesis
        by (auto simp: next_record_def Let_def counters_def)
    next
      case False
      from next_record_sink [OF nr False] show ?thesis by auto
    qed
    show ?thesis
    proof (cases r)
      case True
      with "1.prems" False nr have "returned = r" "it' = it2" "sink = sk"
        by (simp_all add: iterator_next.simps [of p it] it1_def [symmetric])
      with one c1 True show ?thesis by (simp add: counters_def)
    next
      case nf: False
      obtain r2 it3 sk2 where rest: "iterator_next p it2 = (r2, it3, sk2)"
        by (cases "iterator_next p it2")
      from "1.prems" False nr nf rest have res: "returned = r2" "it' = it3" "sink = sk @ sk2"
        by (simp_all add: iterator_next.simps [of p it] it1_def [symmetric])
      have "\<not> fst (next_record p it1)" using nr nf by simp
      from "1.IH" [OF False it1_def refl this, of r2 it3 sk2] nr rest
      have "m_cassandraReadRecords it3 = m_cassandraReadRecords it2 + length (filter is_new_row sk2) \<and>
            m_skippedRecords it3 + (if r2 then 1 else 0) =
               m_skippedRecords it2 + length (filter is_new_row sk2)"
        by simp
      with one c1 nf res show ?thesis by (simp add: counters_def)
    qed
  qed
qed






section \<open>The order of the partitions\<close>

subsection \<open>\<^verbatim>\<open>init_at_key\<close> and \<^verbatim>\<open>find\<close> on the readers of the iterator\<close>




subsection \<open>An iterator that goes back\<close>






end
